theory Spec2Isabelle
  imports Main
begin

section \<open>Strings and paths as the script uses them\<close>

text \<open>
  The script \<^verbatim>\<open>scripts/ncov-tools.py\<close> works on path strings and on the text of files.
  A string is a \<^typ>\<open>string\<close>; the newline is \<open>CHR 0x0A\<close>, the single quote
  \<open>CHR 0x27\<close>, the double quote \<open>CHR 0x22\<close> and the backslash \<open>CHR 0x5C\<close>.
\<close>

type_synonym path = string

text \<open>\<^verbatim>\<open>s.split(sep)\<close> for a one-character separator: never the empty list.\<close>

fun py_split :: "char \<Rightarrow> string \<Rightarrow> string list" where
  "py_split sep [] = [[]]"
| "py_split sep (c # cs) =
     (if c = sep then [] # py_split sep cs
      else (case py_split sep cs of [] \<Rightarrow> [[c]] | w # ws \<Rightarrow> (c # w) # ws))"

text \<open>\<^verbatim>\<open>s.startswith(p)\<close>.\<close>

fun startswith :: "string \<Rightarrow> string \<Rightarrow> bool" where
  "startswith s [] = True"
| "startswith [] (p # ps) = False"
| "startswith (c # cs) (p # ps) = (c = p \<and> startswith cs ps)"

text \<open>\<^verbatim>\<open>path.split('/')[0]\<close>: the sample identifier of a per-sample path.\<close>

definition sample_of :: "path \<Rightarrow> string" where
  "sample_of p = hd (py_split (CHR ''/'') p)"

text \<open>
  \<^verbatim>\<open>posixpath.join(a, *p)\<close>: a component that starts with a slash restarts the path, an
  empty path or one that ends with a slash takes the component as it is, otherwise a slash
  is put between.
\<close>

definition join_step :: "path \<Rightarrow> path \<Rightarrow> path" where
  "join_step acc b =
     (if startswith b ''/'' then b
      else if acc = [] then b
      else if last acc = CHR ''/'' then acc @ b
      else acc @ ''/'' @ b)"

fun path_join :: "path \<Rightarrow> path list \<Rightarrow> path" where
  "path_join a [] = a"
| "path_join a (b # bs) = path_join (join_step a b) bs"

text \<open>\<^verbatim>\<open>posixpath.basename\<close> and \<^verbatim>\<open>posixpath.dirname\<close>.\<close>

definition basename :: "path \<Rightarrow> path" where
  "basename p = rev (takeWhile (\<lambda>c. c \<noteq> CHR ''/'') (rev p))"

definition dirname :: "path \<Rightarrow> path" where
  "dirname p =
     (let head = rev (dropWhile (\<lambda>c. c \<noteq> CHR ''/'') (rev p)) in
      if head \<noteq> [] \<and> filter (\<lambda>c. c \<noteq> CHR ''/'') head \<noteq> []
      then rev (dropWhile (\<lambda>c. c = CHR ''/'') (rev head))
      else head)"

section \<open>Text files\<close>

text \<open>
  Python reads both the consensus files and the manifest in text mode with universal
  newlines: a carriage return, alone or before a newline, is read as one newline. Iterating
  over a file yields its lines, each with its newline kept; only the last line can lack one.
\<close>

fun universal_newlines :: "string \<Rightarrow> string" where
  "universal_newlines [] = []"
| "universal_newlines [c] = [if c = CHR 0x0D then CHR 0x0A else c]"
| "universal_newlines (c # d # cs) =
     (if c = CHR 0x0D then
        (if d = CHR 0x0A then CHR 0x0A # universal_newlines cs
         else CHR 0x0A # universal_newlines (d # cs))
      else c # universal_newlines (d # cs))"

fun keep_lines :: "string \<Rightarrow> string list" where
  "keep_lines [] = []"
| "keep_lines (c # cs) =
     (if c = CHR 0x0A then [c] # keep_lines cs
      else (case keep_lines cs of [] \<Rightarrow> [[c]] | l # ls \<Rightarrow> (c # l) # ls))"

definition readlines :: "string \<Rightarrow> string list" where
  "readlines content = keep_lines (universal_newlines content)"

text \<open>
  The lines of a text as a reader of the finished file sees them (\<^verbatim>\<open>str.splitlines\<close> on
  newline-only text): the newline ends a line and is not part of it.
\<close>

definition file_lines :: "string \<Rightarrow> string list" where
  "file_lines content = map (filter (\<lambda>c. c \<noteq> CHR 0x0A)) (keep_lines content)"

section \<open>The file system\<close>

text \<open>
  A file system maps a path string to a regular file with its text, or to a directory.
  Every file is known under the one path string by which the script names it; hard links
  are entries with the same text (the script never writes through a link: its in-place
  rewrite renames the link away and creates a new file). Symbolic links, permissions,
  devices and decoding errors are outside the model.
\<close>

datatype node = File string | Dir

type_synonym filesystem = "path \<rightharpoonup> node"

datatype error =
    FileNotFoundError
  | FileExistsError
  | PermissionError
  | NotADirectoryError
  | IsADirectoryError
  | SameFileError
  | NameError
  | URLError

text \<open>What a system call reports when the directory that is to hold \<open>p\<close> is not there.\<close>

definition parent_error :: "filesystem \<Rightarrow> path \<Rightarrow> error option" where
  "parent_error fs p =
     (if dirname p = [] then None
      else (case fs (dirname p) of
              None \<Rightarrow> Some FileNotFoundError
            | Some (File c) \<Rightarrow> Some NotADirectoryError
            | Some Dir \<Rightarrow> None))"

text \<open>
  \<^verbatim>\<open>os.link(src, dst)\<close>: the source must exist, the destination's directory must exist,
  the destination must not exist (an existing destination is never replaced), and a
  directory cannot be linked.
\<close>

definition os_link :: "path \<Rightarrow> path \<Rightarrow> filesystem \<Rightarrow> error + filesystem" where
  "os_link src dst fs =
     (case fs src of
        None \<Rightarrow> Inl FileNotFoundError
      | Some n \<Rightarrow>
          (case parent_error fs dst of
             Some e \<Rightarrow> Inl e
           | None \<Rightarrow>
               if fs dst = None then
                 (case n of Dir \<Rightarrow> Inl PermissionError | File c \<Rightarrow> Inr (fs(dst \<mapsto> File c)))
               else Inl FileExistsError))"

section \<open>Rewriting the headers of a consensus file\<close>

text \<open>
  The body of the \<^verbatim>\<open>fileinput\<close> loop (lines 23 to 29 and 59 to 65). A line that starts
  with \<open>>\<close> is replaced as a whole (\<^verbatim>\<open>line.replace(line, new_header)\<close> is
  \<^verbatim>\<open>new_header\<close>) and printed with a newline; any other line is printed, as read, with
  \<^verbatim>\<open>end='\n'\<close>.
\<close>

definition rewrite_line :: "string \<Rightarrow> string \<Rightarrow> string" where
  "rewrite_line sample line =
     (if startswith line ''>'' then (''>'' @ sample) @ [CHR 0x0A]
      else line @ [CHR 0x0A])"

definition rewrite_text :: "string \<Rightarrow> string \<Rightarrow> string" where
  "rewrite_text sample content = concat (map (rewrite_line sample) (readlines content))"

text \<open>
  \<^verbatim>\<open>fileinput.input(ln_path, inplace=True)\<close>: the file is renamed to \<open>ln_path.bak\<close>
  (an older backup is removed first), a new file is created under \<open>ln_path\<close> and takes
  what the loop prints, and the backup is removed at the end.
\<close>

definition rewrite_headers :: "string \<Rightarrow> path \<Rightarrow> filesystem \<Rightarrow> error + filesystem" where
  "rewrite_headers sample ln_path fs =
     (case fs ln_path of
        None \<Rightarrow> Inl FileNotFoundError
      | Some Dir \<Rightarrow> Inl IsADirectoryError
      | Some (File c) \<Rightarrow>
          if fs (ln_path @ ''.bak'') = Some Dir then Inl IsADirectoryError
          else Inr ((fs(ln_path @ ''.bak'' := None))(ln_path \<mapsto> File (rewrite_text sample c))))"

section \<open>The artifact linker\<close>

text \<open>\<^verbatim>\<open>snakemake.input\<close>: the lists of per-sample paths the workflow hands to the script.\<close>

record inputs =
  variants :: "path list"
  consensus :: "path list"
  bams :: "path list"
  primertrimmed_bams :: "path list"

definition variants_tsv :: "path \<Rightarrow> string \<Rightarrow> path" where
  "variants_tsv root sample = root @ ''/'' @ sample @ ''.variants.tsv''"

definition variants_vcf :: "path \<Rightarrow> string \<Rightarrow> path" where
  "variants_vcf root sample = root @ ''/'' @ sample @ ''.variants.vcf''"

definition consensus_fasta :: "path \<Rightarrow> string \<Rightarrow> path" where
  "consensus_fasta root sample = root @ ''/'' @ sample @ ''.consensus.fasta''"

text \<open>\<^verbatim>\<open>link_ivar\<close>, first loop (lines 12 to 16).\<close>

fun ivar_variants :: "path \<Rightarrow> bool \<Rightarrow> path list \<Rightarrow> filesystem \<Rightarrow> error + filesystem" where
  "ivar_variants root replace [] fs = Inr fs"
| "ivar_variants root replace (v # vs) fs =
     (if fs (variants_tsv root (sample_of v)) = None \<or> replace then
        (case os_link v (variants_tsv root (sample_of v)) fs of
           Inl e \<Rightarrow> Inl e
         | Inr fs' \<Rightarrow> ivar_variants root replace vs fs')
      else ivar_variants root replace vs fs)"

text \<open>\<^verbatim>\<open>link_ivar\<close>, second loop (lines 18 to 29): the rewrite runs whether or not the
  link was made.\<close>

fun ivar_consensus :: "path \<Rightarrow> bool \<Rightarrow> path list \<Rightarrow> filesystem \<Rightarrow> error + filesystem" where
  "ivar_consensus root replace [] fs = Inr fs"
| "ivar_consensus root replace (c # cs) fs =
     (case (if fs (consensus_fasta root (sample_of c)) = None \<or> replace
            then os_link c (consensus_fasta root (sample_of c)) fs
            else Inr fs) of
        Inl e \<Rightarrow> Inl e
      | Inr fs1 \<Rightarrow>
          (case rewrite_headers (sample_of c) (consensus_fasta root (sample_of c)) fs1 of
             Inl e \<Rightarrow> Inl e
           | Inr fs2 \<Rightarrow> ivar_consensus root replace cs fs2))"

definition link_ivar :: "path \<Rightarrow> bool \<Rightarrow> inputs \<Rightarrow> filesystem \<Rightarrow> error + filesystem" where
  "link_ivar root replace inp fs =
     (case ivar_variants root replace (variants inp) fs of
        Inl e \<Rightarrow> Inl e
      | Inr fs1 \<Rightarrow> ivar_consensus root replace (consensus inp) fs1)"

text \<open>
  \<^verbatim>\<open>link_freebayes\<close> (lines 33 to 65). Each loop looks for the FreeBayes file of the
  sample; when it is missing the loop calls \<^verbatim>\<open>link_ivar(root, True)\<close> over all inputs
  and breaks.
\<close>

definition freebayes_variants :: "string \<Rightarrow> path" where
  "freebayes_variants sample = path_join sample [''freebayes'', sample @ ''.variants.norm.vcf'']"

definition freebayes_consensus :: "string \<Rightarrow> path" where
  "freebayes_consensus sample = path_join sample [''freebayes'', sample @ ''.consensus.fasta'']"

fun fb_variants :: "path \<Rightarrow> inputs \<Rightarrow> path list \<Rightarrow> filesystem \<Rightarrow> error + filesystem" where
  "fb_variants root inp [] fs = Inr fs"
| "fb_variants root inp (v # vs) fs =
     (if fs (freebayes_variants (sample_of v)) = None then link_ivar root True inp fs
      else if fs (variants_vcf root (sample_of v)) = None then
        (case os_link (freebayes_variants (sample_of v)) (variants_vcf root (sample_of v)) fs of
           Inl e \<Rightarrow> Inl e
         | Inr fs' \<Rightarrow> fb_variants root inp vs fs')
      else fb_variants root inp vs fs)"

fun fb_consensus :: "path \<Rightarrow> inputs \<Rightarrow> path list \<Rightarrow> filesystem \<Rightarrow> error + filesystem" where
  "fb_consensus root inp [] fs = Inr fs"
| "fb_consensus root inp (c # cs) fs =
     (if fs (freebayes_consensus (sample_of c)) = None then link_ivar root True inp fs
      else
        (case (if fs (consensus_fasta root (sample_of c)) = None
               then os_link (freebayes_consensus (sample_of c)) (consensus_fasta root (sample_of c)) fs
               else Inr fs) of
           Inl e \<Rightarrow> Inl e
         | Inr fs1 \<Rightarrow>
             (case rewrite_headers (sample_of c) (consensus_fasta root (sample_of c)) fs1 of
                Inl e \<Rightarrow> Inl e
              | Inr fs2 \<Rightarrow> fb_consensus root inp cs fs2)))"

definition link_freebayes :: "path \<Rightarrow> inputs \<Rightarrow> filesystem \<Rightarrow> error + filesystem" where
  "link_freebayes root inp fs =
     (case fb_variants root inp (variants inp) fs of
        Inl e \<Rightarrow> Inl e
      | Inr fs1 \<Rightarrow> fb_consensus root inp (consensus inp) fs1)"

text \<open>What a run leaves at a path: the error it raised, or the entry found there.\<close>

definition outcome_at :: "error + filesystem \<Rightarrow> path \<Rightarrow> error + node option" where
  "outcome_at r p = (case r of Inl e \<Rightarrow> Inl e | Inr fs \<Rightarrow> Inr (fs p))"

text \<open>One run after another: the second starts from what the first left, unless it raised.\<close>

definition and_then :: "error + filesystem \<Rightarrow> (filesystem \<Rightarrow> error + filesystem) \<Rightarrow> error + filesystem" where
  "and_then r f = (case r of Inl e \<Rightarrow> Inl e | Inr fs \<Rightarrow> f fs)"

section \<open>Version of the lineage tool\<close>

text \<open>
  \<^verbatim>\<open>str.lower()\<close> on ASCII text (other bytes are left as they are), \<^verbatim>\<open>s.strip(ch)\<close>
  for a one-character set, which removes every leading and every trailing \<open>ch\<close>, and
  \<^verbatim>\<open>sep.join(xs)\<close>.
\<close>

definition py_lower_char :: "char \<Rightarrow> char" where
  "py_lower_char c =
     (case map_of (zip ''ABCDEFGHIJKLMNOPQRSTUVWXYZ'' ''abcdefghijklmnopqrstuvwxyz'') c of
        None \<Rightarrow> c
      | Some d \<Rightarrow> d)"

definition py_lower :: "string \<Rightarrow> string" where
  "py_lower s = map py_lower_char s"

definition py_strip :: "char \<Rightarrow> string \<Rightarrow> string" where
  "py_strip ch s = rev (dropWhile (\<lambda>c. c = ch) (rev (dropWhile (\<lambda>c. c = ch) s)))"

fun py_join :: "string \<Rightarrow> string list \<Rightarrow> string" where
  "py_join sep [] = []"
| "py_join sep [x] = x"
| "py_join sep (x # y # ys) = x @ sep @ py_join sep (y # ys)"

text \<open>Lines 74 and 80: \<^verbatim>\<open>s.split(".")[0].lower().strip("v")\<close>.\<close>

definition normalize_version :: "string \<Rightarrow> string" where
  "normalize_version raw = py_strip (CHR ''v'') (py_lower (hd (py_split (CHR ''.'') raw)))"

text \<open>
  The normalisation as the specification words it: the text before the first dot,
  lower-cased, with a leading \<open>v\<close> stripped.
\<close>

definition spec_normalize_version :: "string \<Rightarrow> string" where
  "spec_normalize_version raw =
     (case py_lower (takeWhile (\<lambda>c. c \<noteq> CHR ''.'') raw) of
        [] \<Rightarrow> []
      | c # cs \<Rightarrow> if c = CHR ''v'' then cs else c # cs)"

definition releases_url :: string where
  "releases_url = ''https://github.com/cov-lineages/pangolin/releases/latest''"

text \<open>
  Lines 74 to 80. \<open>urlopen\<close> stands for the network: the final URL that
  \<^verbatim>\<open>web.urlopen(url).geturl()\<close> returns, or the error it raises. The result is the list
  of URLs that were requested, and the version or the error that ends the step.
\<close>

definition resolve_pangolin ::
    "(string \<Rightarrow> error + string) \<Rightarrow> string \<Rightarrow> string list \<times> (error + string)" where
  "resolve_pangolin urlopen raw =
     (if normalize_version raw = ''3'' \<or> normalize_version raw = ''4''
      then ([], Inr (normalize_version raw))
      else ([releases_url],
            (case urlopen releases_url of
               Inl e \<Rightarrow> Inl e
             | Inr commit_url \<Rightarrow>
                 Inr (normalize_version (last (py_split (CHR ''/'') commit_url))))))"

section \<open>Negative controls\<close>

text \<open>
  Lines 91 to 98: \<^verbatim>\<open>fh.readline()\<close> takes the first line away, and every further line
  gives \<^verbatim>\<open>line.split(",")[0]\<close>, added to the set when it starts with one of the prefixes.
\<close>

fun collect_negatives :: "string list \<Rightarrow> string list \<Rightarrow> string set \<Rightarrow> string set" where
  "collect_negatives neg_names [] neg_samples = neg_samples"
| "collect_negatives neg_names (line # rest) neg_samples =
     (if list_ex (startswith (hd (py_split (CHR '','') line))) neg_names
      then collect_negatives neg_names rest (insert (hd (py_split (CHR '','') line)) neg_samples)
      else collect_negatives neg_names rest neg_samples)"

definition negative_controls :: "string list \<Rightarrow> string \<Rightarrow> string set" where
  "negative_controls neg_names manifest =
     collect_negatives neg_names (tl (readlines manifest)) {}"

text \<open>
  The detection as the specification words it: the rows are the lines after the header,
  without their line ends; the identifier of a row is its leading comma-delimited field;
  the result is the set of the identifiers that start with one of the prefixes.
\<close>

definition spec_negative_controls :: "string list \<Rightarrow> string \<Rightarrow> string set" where
  "spec_negative_controls neg_names manifest =
     set (filter (\<lambda>i. list_ex (startswith i) neg_names)
            (map (takeWhile (\<lambda>c. c \<noteq> CHR '',''))
               (tl (map (filter (\<lambda>c. c \<noteq> CHR 0x0A)) (readlines manifest)))))"

section \<open>The configuration file\<close>

text \<open>
  \<^verbatim>\<open>repr\<close> of a string and of a list of strings, as \<^verbatim>\<open>f"{neg_list}"\<close> renders them.
  Bytes from 0x80 on are taken to belong to printable characters, which \<^verbatim>\<open>repr\<close> copies.
\<close>

definition repr_quote :: "string \<Rightarrow> char" where
  "repr_quote s = (if CHR 0x27 \<in> set s \<and> CHR 0x22 \<notin> set s then CHR 0x22 else CHR 0x27)"

definition hex_digit :: "nat \<Rightarrow> char" where
  "hex_digit n = ''0123456789abcdef'' ! n"

definition repr_char :: "char \<Rightarrow> char \<Rightarrow> string" where
  "repr_char q c =
     (if c = q \<or> c = CHR 0x5C then [CHR 0x5C, c]
      else if c = CHR 0x09 then [CHR 0x5C, CHR ''t'']
      else if c = CHR 0x0A then [CHR 0x5C, CHR ''n'']
      else if c = CHR 0x0D then [CHR 0x5C, CHR ''r'']
      else if (of_char c :: nat) < 32 \<or> (of_char c :: nat) = 127
      then [CHR 0x5C, CHR ''x'', hex_digit (of_char c div 16), hex_digit (of_char c mod 16)]
      else [c])"

definition py_repr_str :: "string \<Rightarrow> string" where
  "py_repr_str s = repr_quote s # concat (map (repr_char (repr_quote s)) s) @ [repr_quote s]"

definition py_repr_list :: "string list \<Rightarrow> string" where
  "py_repr_list xs = ''['' @ py_join '', '' (map py_repr_str xs) @ '']''"

text \<open>\<^verbatim>\<open>f"'{s}'"\<close>: the text between single quotes.\<close>

definition quoted :: "string \<Rightarrow> string" where
  "quoted s = CHR 0x27 # s @ [CHR 0x27]"

text \<open>\<^verbatim>\<open>snakemake.params\<close>, each value as \<^verbatim>\<open>str\<close> renders it.\<close>

record params =
  exec_dir :: path
  result_dir :: path
  pangolin :: string
  negative_control_prefix :: "string list"
  sample_csv_filename :: path
  amplicon_bed :: string
  viral_reference_genome :: string
  primer_bed :: string
  phylo_include_seqs :: string
  freebayes_run :: bool

text \<open>The dictionary of lines 104 to 123, in insertion order, each value as it is written.\<close>

definition config_entries ::
    "path \<Rightarrow> string \<Rightarrow> params \<Rightarrow> string list \<Rightarrow> string \<Rightarrow> (string \<times> string) list" where
  "config_entries data_root run_name p neg_list pango =
     [(''data_root'', quoted data_root),
      (''run_name'', quoted run_name),
      (''amplicon_bed'', quoted (amplicon_bed p)),
      (''reference_genome'', quoted (viral_reference_genome p)),
      (''platform'', ''illumina''),
      (''primer_bed'', quoted (primer_bed p)),
      (''bed_type'', ''unique_amplicons''),
      (''offset'', ''0''),
      (''completeness_threshold'', ''0.9''),
      (''bam_pattern'', quoted ''{data_root}/{sample}.bam''),
      (''primer_trimmed_bam_pattern'', quoted ''{data_root}/{sample}.mapped.primertrimmed.sorted.bam''),
      (''consensus_pattern'', quoted ''{data_root}/{sample}.consensus.fasta''),
      (''variants_pattern'', quoted ''{data_root}/{sample}.variants.tsv''),
      (''assign_lineages'', ''true''),
      (''tree_include_consensus'', quoted (phylo_include_seqs p)),
      (''negative_control_samples'', py_repr_list neg_list),
      (''mutation_set'', ''spike_mutations''),
      (''output_directory'', run_name @ ''_ncovresults''),
      (''pangolin_version'', quoted pango)]"

text \<open>\<^verbatim>\<open>config[key] = value\<close>: a key that is present keeps its place.\<close>

fun dict_set :: "string \<Rightarrow> string \<Rightarrow> (string \<times> string) list \<Rightarrow> (string \<times> string) list" where
  "dict_set k v [] = [(k, v)]"
| "dict_set k v ((k', v') # rest) =
     (if k' = k then (k, v) # rest else (k', v') # dict_set k v rest)"

text \<open>Lines 145 and 146: \<^verbatim>\<open>fh.write(f"{key}: {value}\n")\<close> for every item.\<close>

definition render_entry :: "string \<times> string \<Rightarrow> string" where
  "render_entry kv = fst kv @ '': '' @ snd kv @ [CHR 0x0A]"

definition render_config :: "(string \<times> string) list \<Rightarrow> string" where
  "render_config config = concat (map render_entry config)"

section \<open>Setting up the data directory\<close>

text \<open>\<^verbatim>\<open>posixpath.normpath\<close> and \<^verbatim>\<open>posixpath.abspath\<close>.\<close>

definition norm_step :: "bool \<Rightarrow> string list \<Rightarrow> string \<Rightarrow> string list" where
  "norm_step rooted new_comps part =
     (if part = [] \<or> part = ''.'' then new_comps
      else if part \<noteq> ''..'' \<or> (\<not> rooted \<and> new_comps = [])
              \<or> (new_comps \<noteq> [] \<and> last new_comps = ''..'')
      then new_comps @ [part]
      else if new_comps \<noteq> [] then butlast new_comps
      else new_comps)"

definition initial_slashes :: "path \<Rightarrow> nat" where
  "initial_slashes p =
     (if startswith p ''/'' then (if startswith p ''//'' \<and> \<not> startswith p ''///'' then 2 else 1)
      else 0)"

definition normpath :: "path \<Rightarrow> path" where
  "normpath p =
     (if p = [] then ''.''
      else
        (let normed =
               replicate (initial_slashes p) (CHR ''/'')
               @ py_join ''/'' (foldl (norm_step (initial_slashes p \<noteq> 0)) [] (py_split (CHR ''/'') p))
         in if normed = [] then ''.'' else normed))"

definition abspath :: "path \<Rightarrow> path \<Rightarrow> path" where
  "abspath cwd p = normpath (if startswith p ''/'' then p else path_join cwd [p])"

text \<open>Whether \<open>p\<close> lies below the directory \<open>root\<close>.\<close>

definition beneath :: "path \<Rightarrow> path \<Rightarrow> bool" where
  "beneath root p =
     startswith p (if root \<noteq> [] \<and> last root = CHR ''/'' then root else root @ ''/'')"

definition shutil_rmtree :: "path \<Rightarrow> filesystem \<Rightarrow> error + filesystem" where
  "shutil_rmtree root fs =
     (case fs root of
        None \<Rightarrow> Inl FileNotFoundError
      | Some (File c) \<Rightarrow> Inl NotADirectoryError
      | Some Dir \<Rightarrow> Inr (\<lambda>p. if p = root \<or> beneath root p then None else fs p))"

definition os_mkdir :: "path \<Rightarrow> filesystem \<Rightarrow> error + filesystem" where
  "os_mkdir p fs =
     (case parent_error fs p of
        Some e \<Rightarrow> Inl e
      | None \<Rightarrow> if fs p = None then Inr (fs(p \<mapsto> Dir)) else Inl FileExistsError)"

text \<open>Lines 85 to 87: an existing data directory is removed with all it holds, then made anew.\<close>

definition recreate :: "path \<Rightarrow> filesystem \<Rightarrow> error + filesystem" where
  "recreate data_root fs =
     (case (if fs data_root = None then Inr fs else shutil_rmtree data_root fs) of
        Inl e \<Rightarrow> Inl e
      | Inr fs1 \<Rightarrow> os_mkdir data_root fs1)"

text \<open>\<^verbatim>\<open>open(p).read()\<close> and \<^verbatim>\<open>open(p, 'w').write(text)\<close>.\<close>

definition read_text :: "path \<Rightarrow> filesystem \<Rightarrow> error + string" where
  "read_text p fs =
     (case fs p of
        None \<Rightarrow> Inl FileNotFoundError
      | Some Dir \<Rightarrow> Inl IsADirectoryError
      | Some (File c) \<Rightarrow> Inr c)"

definition write_text :: "path \<Rightarrow> string \<Rightarrow> filesystem \<Rightarrow> error + filesystem" where
  "write_text p content fs =
     (case parent_error fs p of
        Some e \<Rightarrow> Inl e
      | None \<Rightarrow> if fs p = Some Dir then Inl IsADirectoryError else Inr (fs(p \<mapsto> File content)))"

text \<open>
  Lines 126 to 136, one loop for each suffix. The guard is
  \<^verbatim>\<open>(not os.path.exists(ln_path)) or (replace is True)\<close>, and no name \<open>replace\<close> is bound
  in \<^verbatim>\<open>set_up\<close> or in the module: when the path is absent the \<^verbatim>\<open>or\<close> stops at its first
  operand, otherwise looking up \<open>replace\<close> raises \<^verbatim>\<open>NameError\<close>.
\<close>

definition bam_link :: "path \<Rightarrow> string \<Rightarrow> path \<Rightarrow> path" where
  "bam_link data_root suffix bam = data_root @ ''/'' @ sample_of bam @ suffix"

fun link_bams :: "path \<Rightarrow> string \<Rightarrow> path list \<Rightarrow> filesystem \<Rightarrow> error + filesystem" where
  "link_bams data_root suffix [] fs = Inr fs"
| "link_bams data_root suffix (bam # rest) fs =
     (if fs (bam_link data_root suffix bam) = None then
        (case os_link bam (bam_link data_root suffix bam) fs of
           Inl e \<Rightarrow> Inl e
         | Inr fs' \<Rightarrow> link_bams data_root suffix rest fs')
      else Inl NameError)"

text \<open>
  What the script takes from outside: the working directory, the network, and the order in
  which Python lists the elements of a set (\<^verbatim>\<open>list(neg_samples)\<close>), which the language
  leaves open.
\<close>

record env =
  getcwd :: path
  urlopen :: "string \<Rightarrow> error + string"
  set_order :: "string set \<Rightarrow> string list"

definition config_path :: "params \<Rightarrow> path" where
  "config_path p = path_join (exec_dir p) [''ncov-tools'', ''config.yaml'']"

definition data_root_of :: "env \<Rightarrow> params \<Rightarrow> path" where
  "data_root_of E p =
     abspath (getcwd E) (path_join (exec_dir p) [''ncov-tools'', basename (result_dir p)])"

text \<open>
  \<^verbatim>\<open>set_up\<close> (lines 67 to 148). The value it returns, the pair of \<open>exec_dir\<close> and the
  run name, is read off the parameters and is left out; console messages are left out too.
\<close>

definition set_up :: "env \<Rightarrow> params \<Rightarrow> inputs \<Rightarrow> filesystem \<Rightarrow> error + filesystem" where
  "set_up E p inp fs =
     (case snd (resolve_pangolin (urlopen E) (pangolin p)) of
        Inl e \<Rightarrow> Inl e
      | Inr pango \<Rightarrow>
     (case recreate (data_root_of E p) fs of
        Inl e \<Rightarrow> Inl e
      | Inr fs2 \<Rightarrow>
     (case read_text (sample_csv_filename p) fs2 of
        Inl e \<Rightarrow> Inl e
      | Inr manifest \<Rightarrow>
     (case link_bams (data_root_of E p) ''.bam'' (bams inp) fs2 of
        Inl e \<Rightarrow> Inl e
      | Inr fs3 \<Rightarrow>
     (case link_bams (data_root_of E p) ''.mapped.primertrimmed.sorted.bam''
             (primertrimmed_bams inp) fs3 of
        Inl e \<Rightarrow> Inl e
      | Inr fs4 \<Rightarrow>
     (case (if freebayes_run p then link_freebayes (data_root_of E p) inp fs4
            else link_ivar (data_root_of E p) False inp fs4) of
        Inl e \<Rightarrow> Inl e
      | Inr fs5 \<Rightarrow>
          write_text (config_path p)
            (render_config
               ((if freebayes_run p
                 then dict_set ''variants_pattern'' (quoted ''{data_root}/{sample}.variants.vcf'')
                 else (\<lambda>config. config))
                  (config_entries (data_root_of E p) (basename (result_dir p)) p
                     (set_order E (negative_controls (negative_control_prefix p) manifest))
                     pango)))
            fs5))))))"


section \<open>Relocating the results\<close>













section \<open>Properties of the artifact linker\<close>

lemmas linker_eval =
  link_ivar_def link_freebayes_def os_link_def parent_error_def dirname_def sample_of_def
  variants_tsv_def variants_vcf_def consensus_fasta_def freebayes_variants_def
  freebayes_consensus_def join_step_def rewrite_headers_def rewrite_text_def rewrite_line_def
  readlines_def outcome_at_def and_then_def file_lines_def

text \<open>
  Claim C1 (the code at a failing input). Rewriting is to leave every line that is not a
  header as it is in the source. Linking the consensus file of sample \<open>A\<close> with the three
  lines \<open>>h\<close>, \<open>AC\<close>, \<open>GT\<close> leaves a file of five lines: the header is \<open>>A\<close>, but each
  sequence line is printed with a second newline, so an empty line follows it and the third
  line of the result is empty where the source has \<open>GT\<close>.
\<close>

theorem C1_rewrite_inserts_blank_lines:
  "outcome_at
     (link_ivar ''d'' False
        \<lparr>variants = [], consensus = [''A/c''], bams = [], primertrimmed_bams = []\<rparr>
        [''d'' \<mapsto> Dir, ''A/c'' \<mapsto> File ''>h\<newline>AC\<newline>GT\<newline>''])
     ''d/A.consensus.fasta''
   = Inr (Some (File ''>A\<newline>AC\<newline>\<newline>GT\<newline>\<newline>''))
   \<and> file_lines ''>h\<newline>AC\<newline>GT\<newline>'' = [''>h'', ''AC'', ''GT'']
   \<and> file_lines ''>A\<newline>AC\<newline>\<newline>GT\<newline>\<newline>'' = [''>A'', ''AC'', [], ''GT'', []]"
  by (simp add: linker_eval)

text \<open>
  Claim C3 (the code at a failing input). Samples \<open>A\<close> and \<open>B\<close> both have FreeBayes
  variants; only \<open>A\<close> has a FreeBayes consensus. The consensus loop links and rewrites
  \<open>d/A.consensus.fasta\<close>, finds the file of \<open>B\<close> missing and calls
  \<^verbatim>\<open>link_ivar(root, True)\<close>, whose \<^verbatim>\<open>os.link\<close> onto the existing
  \<open>d/A.consensus.fasta\<close> raises: the recovery does not complete.
\<close>

theorem C3_downgrade_raises_on_existing_link:
  "link_freebayes ''d''
     \<lparr>variants = [''A/v'', ''B/v''], consensus = [''A/c'', ''B/c''], bams = [],
      primertrimmed_bams = []\<rparr>
     [''d'' \<mapsto> Dir,
      ''A/v'' \<mapsto> File ''x'', ''B/v'' \<mapsto> File ''y'',
      ''A/c'' \<mapsto> File ''>h\<newline>AC\<newline>'', ''B/c'' \<mapsto> File ''>h\<newline>GT\<newline>'',
      ''A/freebayes/A.variants.norm.vcf'' \<mapsto> File ''p'',
      ''B/freebayes/B.variants.norm.vcf'' \<mapsto> File ''q'',
      ''A/freebayes/A.consensus.fasta'' \<mapsto> File ''>f\<newline>TT\<newline>'']
   = Inl FileExistsError"
  by (simp add: linker_eval)

text \<open>
  Claim C4 (the code at a failing input). Linking sample \<open>A\<close> twice with the replace flag
  false: the second run makes no link and raises nothing, but it rewrites the consensus
  file again, and the file that held \<open>>A\<close>, \<open>AC\<close> and one empty line after the first run
  holds three empty lines after the second.
\<close>

theorem C4_second_link_changes_consensus:
  "outcome_at
     (link_ivar ''d'' False
        \<lparr>variants = [''A/v''], consensus = [''A/c''], bams = [], primertrimmed_bams = []\<rparr>
        [''d'' \<mapsto> Dir, ''A/v'' \<mapsto> File ''x'', ''A/c'' \<mapsto> File ''>h\<newline>AC\<newline>''])
     ''d/A.consensus.fasta''
   = Inr (Some (File ''>A\<newline>AC\<newline>\<newline>''))
   \<and> outcome_at
     (and_then
        (link_ivar ''d'' False
           \<lparr>variants = [''A/v''], consensus = [''A/c''], bams = [], primertrimmed_bams = []\<rparr>
           [''d'' \<mapsto> Dir, ''A/v'' \<mapsto> File ''x'', ''A/c'' \<mapsto> File ''>h\<newline>AC\<newline>''])
        (link_ivar ''d'' False
           \<lparr>variants = [''A/v''], consensus = [''A/c''], bams = [], primertrimmed_bams = []\<rparr>))
     ''d/A.consensus.fasta''
   = Inr (Some (File ''>A\<newline>AC\<newline>\<newline>\<newline>\<newline>''))"
  by (simp add: linker_eval)

text \<open>
  Claim C5 (the code at a failing input). Sample \<open>A\<close> has FreeBayes variants, sample \<open>B\<close>
  has none, both have a FreeBayes consensus. The pass completes with a downgrade, and the
  data directory then holds two variants files for \<open>A\<close>: the FreeBayes link made before
  the downgrade and the iVar link made by it.
\<close>

theorem C5_downgrade_leaves_two_variants_files:
  "outcome_at
     (link_freebayes ''d''
        \<lparr>variants = [''A/v'', ''B/v''], consensus = [''A/c'', ''B/c''], bams = [],
         primertrimmed_bams = []\<rparr>
        [''d'' \<mapsto> Dir,
         ''A/v'' \<mapsto> File ''x'', ''B/v'' \<mapsto> File ''y'',
         ''A/c'' \<mapsto> File ''>h\<newline>AC\<newline>'', ''B/c'' \<mapsto> File ''>h\<newline>GT\<newline>'',
         ''A/freebayes/A.variants.norm.vcf'' \<mapsto> File ''p'',
         ''A/freebayes/A.consensus.fasta'' \<mapsto> File ''>f\<newline>TT\<newline>'',
         ''B/freebayes/B.consensus.fasta'' \<mapsto> File ''>g\<newline>CC\<newline>''])
     ''d/A.variants.vcf''
   = Inr (Some (File ''p''))
   \<and> outcome_at
     (link_freebayes ''d''
        \<lparr>variants = [''A/v'', ''B/v''], consensus = [''A/c'', ''B/c''], bams = [],
         primertrimmed_bams = []\<rparr>
        [''d'' \<mapsto> Dir,
         ''A/v'' \<mapsto> File ''x'', ''B/v'' \<mapsto> File ''y'',
         ''A/c'' \<mapsto> File ''>h\<newline>AC\<newline>'', ''B/c'' \<mapsto> File ''>h\<newline>GT\<newline>'',
         ''A/freebayes/A.variants.norm.vcf'' \<mapsto> File ''p'',
         ''A/freebayes/A.consensus.fasta'' \<mapsto> File ''>f\<newline>TT\<newline>'',
         ''B/freebayes/B.consensus.fasta'' \<mapsto> File ''>g\<newline>CC\<newline>''])
     ''d/A.variants.tsv''
   = Inr (Some (File ''x''))"
  by (simp add: linker_eval)

section \<open>Facts about the string functions\<close>

lemma py_split_not_Nil: "py_split sep s \<noteq> []"
  by (induction s) (auto split: list.splits)

lemma hd_py_split: "hd (py_split sep s) = takeWhile (\<lambda>c. c \<noteq> sep) s"
proof (induction s)
  case Nil
  show ?case by simp
next
  case (Cons c cs)
  then show ?case
    using py_split_not_Nil [of sep cs] by (cases "py_split sep cs") auto
qed

lemma startswith_iff: "startswith s p \<longleftrightarrow> (\<exists>rest. s = p @ rest)"
  by (induction s p rule: startswith.induct) auto

lemma takeWhile_same: "takeWhile (\<lambda>c. c = a) xs = replicate (length (takeWhile (\<lambda>c. c = a) xs)) a"
  by (induction xs) auto

lemma rev_split: "xs = rev (dropWhile P (rev xs)) @ rev (takeWhile P (rev xs))"
  by (metis rev_append rev_rev_ident takeWhile_dropWhile_id)

lemma strip_shape: "\<exists>i j. s = replicate i ch @ py_strip ch s @ replicate j ch"
proof -
  let ?P = "\<lambda>c. c = ch"
  let ?m = "dropWhile ?P s"
  have a: "s = takeWhile ?P s @ ?m" by simp
  have c: "?m = rev (dropWhile ?P (rev ?m)) @ rev (takeWhile ?P (rev ?m))"
    by (rule rev_split)
  have d: "rev (takeWhile ?P (rev ?m)) = replicate (length (takeWhile ?P (rev ?m))) ch"
    using takeWhile_same [of ch "rev ?m"] by (metis rev_replicate)
  have "s = replicate (length (takeWhile ?P s)) ch @ py_strip ch s
            @ replicate (length (takeWhile ?P (rev ?m))) ch"
    using a c d takeWhile_same [of ch s] unfolding py_strip_def by metis
  then show ?thesis by blast
qed

lemma dropWhile_not_start: "\<not> startswith (dropWhile (\<lambda>c. c = ch) s) [ch]"
  by (induction s) auto

lemma strip_no_lead: "\<not> startswith (py_strip ch s) [ch]"
proof
  assume "startswith (py_strip ch s) [ch]"
  then obtain r where r: "py_strip ch s = ch # r" by (auto simp: startswith_iff)
  let ?m = "dropWhile (\<lambda>c. c = ch) s"
  have m: "?m = rev (dropWhile (\<lambda>c. c = ch) (rev ?m)) @ rev (takeWhile (\<lambda>c. c = ch) (rev ?m))"
    by (rule rev_split)
  then have "?m = (ch # r) @ rev (takeWhile (\<lambda>c. c = ch) (rev ?m))"
    using r unfolding py_strip_def by simp
  then have "startswith ?m [ch]" by (auto simp: startswith_iff)
  then show False using dropWhile_not_start by blast
qed

lemma strip_no_trail: "\<not> startswith (rev (py_strip ch s)) [ch]"
  unfolding py_strip_def using dropWhile_not_start by simp

lemma collect_negatives_eq:
  "collect_negatives names ls acc =
     acc \<union> {i. \<exists>line \<in> set ls. i = hd (py_split (CHR '','') line) \<and> list_ex (startswith i) names}"
  by (induction ls arbitrary: acc) auto

lemma keep_lines_newline_last: "l \<in> set (keep_lines s) \<Longrightarrow> CHR 0x0A \<notin> set (butlast l)"
proof (induction s arbitrary: l)
  case Nil
  then show ?case by simp
next
  case (Cons c cs)
  show ?case
  proof (cases "c = CHR 0x0A")
    case True
    with Cons.prems have "l = [c] \<or> l \<in> set (keep_lines cs)" by auto
    then show ?thesis using Cons.IH by auto
  next
    case False
    show ?thesis
    proof (cases "keep_lines cs")
      case Nil
      with False Cons.prems show ?thesis by simp
    next
      case (Cons l' ls)
      with False Cons.prems have "l = c # l' \<or> l \<in> set ls" by auto
      then show ?thesis
      proof
        assume l: "l = c # l'"
        have "CHR 0x0A \<notin> set (butlast l')" using Cons.IH [of l'] Cons by simp
        with l False show ?thesis by auto
      next
        assume "l \<in> set ls"
        then show ?thesis using Cons.IH [of l] Cons by simp
      qed
    qed
  qed
qed

lemma field_of_line:
  "CHR 0x0A \<notin> set (butlast l) \<Longrightarrow> CHR '','' \<in> set l \<Longrightarrow>
     takeWhile (\<lambda>c. c \<noteq> CHR '','') (filter (\<lambda>c. c \<noteq> CHR 0x0A) l)
       = takeWhile (\<lambda>c. c \<noteq> CHR '','') l"
proof (induction l)
  case Nil
  then show ?case by simp
next
  case (Cons a l)
  show ?case
  proof (cases "a = CHR '',''")
    case True
    then show ?thesis by simp
  next
    case False
    with Cons.prems(2) have in_l: "CHR '','' \<in> set l" by simp
    then have "l \<noteq> []" by auto
    with Cons.prems(1) have "a \<noteq> CHR 0x0A" and "CHR 0x0A \<notin> set (butlast l)" by auto
    with Cons.IH in_l False show ?thesis by simp
  qed
qed

lemmas version_eval = normalize_version_def py_strip_def py_lower_def py_lower_char_def

text \<open>
  Claim C8, as amended. The version is the text before the first dot, lower-cased, with
  every leading and every trailing \<open>v\<close> removed: what is removed on either side is a run
  of \<open>v\<close>, and what is left neither starts nor ends with \<open>v\<close>. Whenever the result is
  \<open>3\<close> or \<open>4\<close> it is the version and no URL is requested; whenever it is neither, the
  release URL is requested, and the version is read from the answer or the error of the
  request ends the step. So \<open>v3.1.2\<close> gives \<open>3\<close> and \<open>V4.0.1\<close> gives \<open>4\<close> without a
  request, and \<open>v99.0\<close> makes the request.
\<close>

theorem C8_version_normalisation:
  "(\<exists>i j. py_lower (takeWhile (\<lambda>c. c \<noteq> CHR ''.'') raw)
            = replicate i (CHR ''v'') @ normalize_version raw @ replicate j (CHR ''v''))
   \<and> \<not> startswith (normalize_version raw) ''v''
   \<and> \<not> startswith (rev (normalize_version raw)) ''v''
   \<and> (normalize_version raw = ''3'' \<or> normalize_version raw = ''4'' \<longrightarrow>
        resolve_pangolin net raw = ([], Inr (normalize_version raw)))
   \<and> (normalize_version raw \<noteq> ''3'' \<and> normalize_version raw \<noteq> ''4'' \<longrightarrow>
        resolve_pangolin net raw
          = ([releases_url],
             (case net releases_url of
                Inl e \<Rightarrow> Inl e
              | Inr u \<Rightarrow> Inr (normalize_version (last (py_split (CHR ''/'') u))))))
   \<and> resolve_pangolin net ''v3.1.2'' = ([], Inr ''3'')
   \<and> resolve_pangolin net ''V4.0.1'' = ([], Inr ''4'')
   \<and> resolve_pangolin net ''v99.0''
       = ([releases_url],
          (case net releases_url of
             Inl e \<Rightarrow> Inl e
           | Inr u \<Rightarrow> Inr (normalize_version (last (py_split (CHR ''/'') u)))))"
proof -
  have n3: "normalize_version ''v3.1.2'' = ''3''" by (simp add: version_eval)
  have n4: "normalize_version ''V4.0.1'' = ''4''" by (simp add: version_eval)
  have n99: "normalize_version ''v99.0'' = ''99''" by (simp add: version_eval)
  have shape: "\<exists>i j. py_lower (takeWhile (\<lambda>c. c \<noteq> CHR ''.'') raw)
            = replicate i (CHR ''v'') @ normalize_version raw @ replicate j (CHR ''v'')"
    unfolding normalize_version_def hd_py_split by (rule strip_shape)
  have lead: "\<not> startswith (normalize_version raw) ''v''"
    unfolding normalize_version_def by (rule strip_no_lead)
  have trail: "\<not> startswith (rev (normalize_version raw)) ''v''"
    unfolding normalize_version_def by (rule strip_no_trail)
  have supported: "normalize_version raw = ''3'' \<or> normalize_version raw = ''4'' \<longrightarrow>
        resolve_pangolin net raw = ([], Inr (normalize_version raw))"
    by (simp add: resolve_pangolin_def)
  have other: "normalize_version raw \<noteq> ''3'' \<and> normalize_version raw \<noteq> ''4'' \<longrightarrow>
        resolve_pangolin net raw
          = ([releases_url],
             (case net releases_url of
                Inl e \<Rightarrow> Inl e
              | Inr u \<Rightarrow> Inr (normalize_version (last (py_split (CHR ''/'') u)))))"
    by (simp add: resolve_pangolin_def)
  have r3: "resolve_pangolin net ''v3.1.2'' = ([], Inr ''3'')"
    by (simp add: resolve_pangolin_def n3)
  have r4: "resolve_pangolin net ''V4.0.1'' = ([], Inr ''4'')"
    by (simp add: resolve_pangolin_def n4)
  have r99: "resolve_pangolin net ''v99.0''
       = ([releases_url],
          (case net releases_url of
             Inl e \<Rightarrow> Inl e
           | Inr u \<Rightarrow> Inr (normalize_version (last (py_split (CHR ''/'') u)))))"
    by (simp add: resolve_pangolin_def n99)
  from shape lead trail supported other r3 r4 r99 show ?thesis by blast
qed

text \<open>
  C8 at concrete inputs: \<open>4.1\<close> is supported and makes no request even when the network
  is down; \<open>v5.0\<close> is not supported, so the release URL is requested, the tag \<open>v4.3.1\<close>
  of the answer gives \<open>4\<close>, and a failing request ends the step with its error.
\<close>

theorem C8_witness:
  "(normalize_version ''4.1'' = ''3'' \<or> normalize_version ''4.1'' = ''4'')
   \<and> resolve_pangolin (\<lambda>u. Inl URLError) ''4.1'' = ([], Inr ''4'')
   \<and> normalize_version ''v5.0'' \<noteq> ''3'' \<and> normalize_version ''v5.0'' \<noteq> ''4''
   \<and> resolve_pangolin
        (\<lambda>u. Inr ''https://github.com/cov-lineages/pangolin/releases/tag/v4.3.1'') ''v5.0''
       = ([releases_url], Inr ''4'')
   \<and> resolve_pangolin (\<lambda>u. Inl URLError) ''v5.0'' = ([releases_url], Inl URLError)"
proof -
  have s: "normalize_version ''4.1'' = ''3'' \<or> normalize_version ''4.1'' = ''4''"
    by (simp add: version_eval)
  have n4: "normalize_version ''4.1'' = ''4''" by (simp add: version_eval)
  have u: "normalize_version ''v5.0'' \<noteq> ''3'' \<and> normalize_version ''v5.0'' \<noteq> ''4''"
    by (simp add: version_eval)
  have tag: "normalize_version (last (py_split (CHR ''/'')
               ''https://github.com/cov-lineages/pangolin/releases/tag/v4.3.1'')) = ''4''"
    by (simp add: version_eval)
  have a: "resolve_pangolin (\<lambda>u. Inl URLError) ''4.1'' = ([], Inr (normalize_version ''4.1''))"
    using C8_version_normalisation [of "''4.1''" "\<lambda>u. Inl URLError", THEN conjunct2, THEN conjunct2, THEN conjunct2,
        THEN conjunct1] s
    by (rule mp)
  have b: "resolve_pangolin
        (\<lambda>u. Inr ''https://github.com/cov-lineages/pangolin/releases/tag/v4.3.1'') ''v5.0''
       = ([releases_url], Inr ''4'')"
    using C8_version_normalisation [of "''v5.0''"
        "\<lambda>u. Inr ''https://github.com/cov-lineages/pangolin/releases/tag/v4.3.1''",
        THEN conjunct2, THEN conjunct2, THEN conjunct2, THEN conjunct2, THEN conjunct1] u tag
    by simp
  have c: "resolve_pangolin (\<lambda>u. Inl URLError) ''v5.0'' = ([releases_url], Inl URLError)"
    using C8_version_normalisation [of "''v5.0''" "\<lambda>u. Inl URLError",
        THEN conjunct2, THEN conjunct2, THEN conjunct2, THEN conjunct2, THEN conjunct1] u
    by simp
  from s a n4 u b c show ?thesis by simp
qed

text \<open>
  Claim C8 as stated fails: stripping a leading \<open>v\<close> leaves \<open>3v\<close> of \<open>3v.1\<close>, where
  the script's \<^verbatim>\<open>strip("v")\<close> gives \<open>3\<close>, a supported version.
\<close>

theorem C8_strip_counterexample:
  "normalize_version ''3v.1'' = ''3'' \<and> spec_normalize_version ''3v.1'' = ''3v''
   \<and> normalize_version ''3v.1'' \<noteq> spec_normalize_version ''3v.1''"
  by (simp add: spec_normalize_version_def normalize_version_def py_strip_def py_lower_def
      py_lower_char_def)

text \<open>
  Claim C7, as amended. The first line is discarded. Every further line gives the text
  before its first comma, and the result is the set of those texts that start with one of
  the prefixes. When every line after the header holds a comma this is the detection as
  the specification words it: the leading comma-delimited fields of the rows. (A line
  without a comma gives the whole line, its newline included.) A manifest of one line or
  none gives the empty set, and the rows \<open>NEG1\<close>, \<open>SAMPLE2\<close>, \<open>neg_blank\<close> with the
  prefixes \<open>NEG\<close> and \<open>neg\<close> give \<open>NEG1\<close> and \<open>neg_blank\<close>.
\<close>

theorem C7_negative_controls:
  "negative_controls names manifest
     = {i. \<exists>line \<in> set (tl (readlines manifest)).
             i = takeWhile (\<lambda>c. c \<noteq> CHR '','') line \<and> (\<exists>p \<in> set names. \<exists>rest. i = p @ rest)}
   \<and> ((\<forall>line \<in> set (tl (readlines manifest)). CHR '','' \<in> set line) \<longrightarrow>
        negative_controls names manifest = spec_negative_controls names manifest)
   \<and> (length (readlines manifest) \<le> 1 \<longrightarrow> negative_controls names manifest = {})
   \<and> negative_controls [''NEG'', ''neg'']
        ''sample,...\<newline>NEG1,...\<newline>SAMPLE2,...\<newline>neg_blank,...\<newline>''
       = {''NEG1'', ''neg_blank''}"
proof -
  have general: "negative_controls names manifest
     = {i. \<exists>line \<in> set (tl (readlines manifest)).
             i = takeWhile (\<lambda>c. c \<noteq> CHR '','') line \<and> (\<exists>p \<in> set names. \<exists>rest. i = p @ rest)}"
    unfolding negative_controls_def collect_negatives_eq hd_py_split
    by (auto simp: list_ex_iff startswith_iff)
  have refine: "negative_controls names manifest = spec_negative_controls names manifest"
    if commas: "\<forall>line \<in> set (tl (readlines manifest)). CHR '','' \<in> set line"
  proof -
    have same: "takeWhile (\<lambda>c. c \<noteq> CHR '','') (filter (\<lambda>c. c \<noteq> CHR 0x0A) line)
                = takeWhile (\<lambda>c. c \<noteq> CHR '','') line"
      if "line \<in> set (tl (readlines manifest))" for line
    proof -
      from that have "line \<in> set (readlines manifest)"
        by (cases "readlines manifest") auto
      then have "CHR 0x0A \<notin> set (butlast line)"
        unfolding readlines_def by (rule keep_lines_newline_last)
      moreover from commas that have "CHR '','' \<in> set line" by blast
      ultimately show ?thesis by (rule field_of_line)
    qed
    have "spec_negative_controls names manifest
          = {i. \<exists>line \<in> set (tl (readlines manifest)).
                 i = takeWhile (\<lambda>c. c \<noteq> CHR '','') (filter (\<lambda>c. c \<noteq> CHR 0x0A) line)
                 \<and> list_ex (startswith i) names}"
      unfolding spec_negative_controls_def by (auto simp: map_tl [symmetric])
    also have "\<dots> = {i. \<exists>line \<in> set (tl (readlines manifest)).
                 i = takeWhile (\<lambda>c. c \<noteq> CHR '','') line \<and> list_ex (startswith i) names}"
      using same by auto
    also have "\<dots> = negative_controls names manifest"
      unfolding negative_controls_def collect_negatives_eq hd_py_split by auto
    finally show ?thesis by simp
  qed
  have header: "length (readlines manifest) \<le> 1 \<longrightarrow> negative_controls names manifest = {}"
  proof
    assume "length (readlines manifest) \<le> 1"
    then have "tl (readlines manifest) = []"
      by (cases "readlines manifest") auto
    then show "negative_controls names manifest = {}"
      by (simp add: negative_controls_def)
  qed
  have example: "negative_controls [''NEG'', ''neg'']
        ''sample,...\<newline>NEG1,...\<newline>SAMPLE2,...\<newline>neg_blank,...\<newline>''
       = {''NEG1'', ''neg_blank''}"
    by (simp add: negative_controls_def readlines_def insert_commute)
  from general refine header example show ?thesis by blast
qed

text \<open>
  C7 at concrete manifests: one whose rows hold commas, where the script and the
  specification agree, and one that holds the header only.
\<close>

theorem C7_witness:
  "list_all (\<lambda>line. CHR '','' \<in> set line) (tl (readlines ''sample,...\<newline>NEG1,...\<newline>''))
   \<and> negative_controls [''NEG'', ''neg''] ''sample,...\<newline>NEG1,...\<newline>''
       = spec_negative_controls [''NEG'', ''neg''] ''sample,...\<newline>NEG1,...\<newline>''
   \<and> length (readlines ''sample,...\<newline>'') \<le> 1
   \<and> negative_controls [''NEG'', ''neg''] ''sample,...\<newline>'' = {}"
proof -
  have a: "list_all (\<lambda>line. CHR '','' \<in> set line)
             (tl (readlines ''sample,...\<newline>NEG1,...\<newline>''))"
    by (simp add: readlines_def)
  then have b: "\<forall>line \<in> set (tl (readlines ''sample,...\<newline>NEG1,...\<newline>'')). CHR '','' \<in> set line"
    by (simp only: list_all_iff)
  have h: "length (readlines ''sample,...\<newline>'') \<le> 1"
    by (simp add: readlines_def)
  have c: "negative_controls [''NEG'', ''neg''] ''sample,...\<newline>NEG1,...\<newline>''
       = spec_negative_controls [''NEG'', ''neg''] ''sample,...\<newline>NEG1,...\<newline>''"
    using C7_negative_controls [of "[''NEG'', ''neg'']" "''sample,...\<newline>NEG1,...\<newline>''",
        THEN conjunct2, THEN conjunct1] b
    by (rule mp)
  have e: "negative_controls [''NEG'', ''neg''] ''sample,...\<newline>'' = {}"
    using C7_negative_controls [of "[''NEG'', ''neg'']" "''sample,...\<newline>''",
        THEN conjunct2, THEN conjunct2, THEN conjunct1] h
    by (rule mp)
  from a c h e show ?thesis by blast
qed

text \<open>
  Claim C7 as stated fails on rows without a comma: the identifier keeps the newline of
  its line, so the sample \<open>NEG1\<close> listed twice, the second time on a last line without a
  newline, is returned as two identifiers, neither of them deduplicated with the other.
\<close>

theorem C7_newline_counterexample:
  "negative_controls [''NEG''] ''sample\<newline>NEG1\<newline>NEG1'' = {''NEG1'', ''NEG1\<newline>''}
   \<and> spec_negative_controls [''NEG''] ''sample\<newline>NEG1\<newline>NEG1'' = {''NEG1''}
   \<and> negative_controls [''NEG''] ''sample\<newline>NEG1\<newline>NEG1''
       \<noteq> spec_negative_controls [''NEG''] ''sample\<newline>NEG1\<newline>NEG1''"
proof -
  have code: "negative_controls [''NEG''] ''sample\<newline>NEG1\<newline>NEG1'' = {''NEG1'', ''NEG1\<newline>''}"
    by (simp add: negative_controls_def readlines_def)
  have spec: "spec_negative_controls [''NEG''] ''sample\<newline>NEG1\<newline>NEG1'' = {''NEG1''}"
    by (simp add: spec_negative_controls_def readlines_def)
  have "''NEG1\<newline>'' \<in> {''NEG1'', ''NEG1\<newline>''}" by simp
  moreover have "''NEG1\<newline>'' \<notin> {''NEG1''}" by simp
  ultimately have "{''NEG1'', ''NEG1\<newline>''} \<noteq> {''NEG1''}" by metis
  with code spec show ?thesis by simp
qed

section \<open>What the linking loops keep and add\<close>

lemma map_le_new: "fs d = None \<Longrightarrow> fs \<subseteq>\<^sub>m fs(d \<mapsto> x)"
  by (auto simp: map_le_def)

lemma os_link_Inr:
  "os_link s d fs = Inr fs' \<Longrightarrow> fs d = None \<and> (\<exists>c. fs s = Some (File c) \<and> fs' = fs(d \<mapsto> File c))"
  by (auto simp: os_link_def split: option.splits node.splits if_splits)

lemma rewrite_headers_Inr:
  "rewrite_headers sm ln fs = Inr fs' \<Longrightarrow>
     \<exists>c. fs ln = Some (File c) \<and> fs' = (fs(ln @ ''.bak'' := None))(ln \<mapsto> File (rewrite_text sm c))"
  by (auto simp: rewrite_headers_def split: option.splits node.splits if_splits)

lemma ivar_variants_mono: "ivar_variants root r vs fs = Inr fs' \<Longrightarrow> fs \<subseteq>\<^sub>m fs'"
proof (induction vs arbitrary: fs)
  case Nil
  then show ?case by simp
next
  case (Cons v vs)
  show ?case
  proof (cases "fs (variants_tsv root (sample_of v)) = None \<or> r")
    case True
    with Cons.prems obtain fs1 where
      l: "os_link v (variants_tsv root (sample_of v)) fs = Inr fs1" and
      rest: "ivar_variants root r vs fs1 = Inr fs'"
      by (auto split: sum.splits)
    from os_link_Inr [OF l] have "fs \<subseteq>\<^sub>m fs1" by (auto intro: map_le_new)
    then show ?thesis using Cons.IH [OF rest] by (rule map_le_trans)
  next
    case False
    with Cons.prems have "ivar_variants root r vs fs = Inr fs'" by simp
    then show ?thesis by (rule Cons.IH)
  qed
qed

lemma map_le_at: "m \<subseteq>\<^sub>m m' \<Longrightarrow> m k = Some x \<Longrightarrow> m' k = Some x"
  by (metis domI map_le_def)

lemma ivar_variants_links:
  "ivar_variants root True vs fs = Inr fs' \<Longrightarrow> v \<in> set vs \<Longrightarrow>
     \<exists>c. fs' (variants_tsv root (sample_of v)) = Some (File c) \<and> (fs v \<noteq> None \<longrightarrow> fs v = Some (File c))"
proof (induction vs arbitrary: fs)
  case Nil
  then show ?case by simp
next
  case (Cons x xs)
  from Cons.prems(1) obtain fs1 where
    l: "os_link x (variants_tsv root (sample_of x)) fs = Inr fs1" and
    rest: "ivar_variants root True xs fs1 = Inr fs'"
    by (auto split: sum.splits)
  from os_link_Inr [OF l] obtain c where
    absent: "fs (variants_tsv root (sample_of x)) = None" and
    src: "fs x = Some (File c)" and
    fs1: "fs1 = fs(variants_tsv root (sample_of x) \<mapsto> File c)"
    by blast
  have le: "fs \<subseteq>\<^sub>m fs1" using absent fs1 by (simp add: map_le_new)
  show ?case
  proof (cases "v = x")
    case True
    have "fs1 (variants_tsv root (sample_of x)) = Some (File c)" using fs1 by simp
    then have "fs' (variants_tsv root (sample_of x)) = Some (File c)"
      using ivar_variants_mono [OF rest] by (rule_tac map_le_at)
    with src True show ?thesis by simp
  next
    case False
    with Cons.prems(2) have "v \<in> set xs" by simp
    from Cons.IH [OF rest this] obtain c' where
      a: "fs' (variants_tsv root (sample_of v)) = Some (File c')" and
      b: "fs1 v \<noteq> None \<longrightarrow> fs1 v = Some (File c')"
      by blast
    have "fs v \<noteq> None \<longrightarrow> fs v = Some (File c')"
    proof
      assume "fs v \<noteq> None"
      then obtain n where n: "fs v = Some n" by blast
      then have "fs1 v = Some n" using le by (rule_tac map_le_at)
      with b n show "fs v = Some (File c')" by simp
    qed
    with a show ?thesis by blast
  qed
qed

lemma last_tsv: "last (variants_tsv root s) = CHR ''v''"
  by (simp add: variants_tsv_def)

lemma last_fasta: "last (consensus_fasta root s) = CHR ''a''"
  by (simp add: consensus_fasta_def)

lemma last_bak: "last (consensus_fasta root s @ ''.bak'') = CHR ''k''"
  by simp

lemma consensus_step_frame:
  assumes "os_link c (consensus_fasta root s) fs = Inr fs1 \<or> fs1 = fs"
    and "rewrite_headers s (consensus_fasta root s) fs1 = Inr fs2"
    and "last p \<noteq> CHR ''a''" and "last p \<noteq> CHR ''k''"
  shows "fs2 p = fs p"
proof -
  have a: "p \<noteq> consensus_fasta root s" using assms(3) last_fasta by metis
  have b: "p \<noteq> consensus_fasta root s @ ''.bak''" using assms(4) last_bak by metis
  have "fs1 p = fs p" using assms(1) a by (auto dest: os_link_Inr)
  moreover have "fs2 p = fs1 p"
    using rewrite_headers_Inr [OF assms(2)] a b by auto
  ultimately show ?thesis by simp
qed

lemma ivar_consensus_frame:
  "ivar_consensus root r cs fs = Inr fs' \<Longrightarrow> last p \<noteq> CHR ''a'' \<Longrightarrow> last p \<noteq> CHR ''k'' \<Longrightarrow>
     fs' p = fs p"
proof (induction cs arbitrary: fs)
  case Nil
  then show ?case by simp
next
  case (Cons c cs)
  let ?ln = "consensus_fasta root (sample_of c)"
  from Cons.prems(1) obtain fs1 fs2 where
    l: "os_link c ?ln fs = Inr fs1 \<or> fs1 = fs" and
    w: "rewrite_headers (sample_of c) ?ln fs1 = Inr fs2" and
    rest: "ivar_consensus root r cs fs2 = Inr fs'"
    by (auto split: sum.splits if_splits)
  have "fs2 p = fs p" using l w Cons.prems(2,3) by (rule consensus_step_frame)
  moreover have "fs' p = fs2 p" using rest Cons.prems(2,3) by (rule Cons.IH)
  ultimately show ?case by simp
qed

lemma link_ivar_frame:
  assumes "link_ivar root r inp fs = Inr fs'" and "fs p = Some n"
    and "last p \<noteq> CHR ''a''" and "last p \<noteq> CHR ''k''"
  shows "fs' p = Some n"
proof -
  from assms(1) obtain fs1 where
    v: "ivar_variants root r (variants inp) fs = Inr fs1" and
    c: "ivar_consensus root r (consensus inp) fs1 = Inr fs'"
    by (auto simp: link_ivar_def split: sum.splits)
  have "fs1 p = Some n" using ivar_variants_mono [OF v] assms(2) by (rule map_le_at)
  with ivar_consensus_frame [OF c assms(3,4)] show ?thesis by simp
qed

lemma fb_consensus_frame:
  "fb_consensus root inp cs fs = Inr fs' \<Longrightarrow> fs p = Some n \<Longrightarrow> last p \<noteq> CHR ''a'' \<Longrightarrow>
     last p \<noteq> CHR ''k'' \<Longrightarrow> fs' p = Some n"
proof (induction cs arbitrary: fs)
  case Nil
  then show ?case by simp
next
  case (Cons c cs)
  let ?ln = "consensus_fasta root (sample_of c)"
  show ?case
  proof (cases "fs (freebayes_consensus (sample_of c)) = None")
    case True
    with Cons.prems(1) have "link_ivar root True inp fs = Inr fs'" by simp
    then show ?thesis using Cons.prems(2,3,4) by (rule link_ivar_frame)
  next
    case False
    with Cons.prems(1) obtain fs1 fs2 where
      l: "os_link (freebayes_consensus (sample_of c)) ?ln fs = Inr fs1 \<or> fs1 = fs" and
      w: "rewrite_headers (sample_of c) ?ln fs1 = Inr fs2" and
      rest: "fb_consensus root inp cs fs2 = Inr fs'"
      by (auto split: sum.splits if_splits)
    have "fs2 p = fs p" using l w Cons.prems(3,4) by (rule consensus_step_frame)
    then have "fs2 p = Some n" using Cons.prems(2) by simp
    with rest show ?thesis using Cons.prems(3,4) by (rule Cons.IH)
  qed
qed

lemma freebayes_variants_suffix: "\<exists>pre. freebayes_variants s = pre @ ''m.vcf''"
proof -
  have "\<exists>pre. join_step a (s @ ''.variants.norm.vcf'') = pre @ ''m.vcf''" for a
  proof -
    have e: "s @ ''.variants.norm.vcf'' = (s @ ''.variants.nor'') @ ''m.vcf''" by simp
    show ?thesis
      unfolding join_step_def e
      by (metis append.assoc)
  qed
  then show ?thesis by (simp add: freebayes_variants_def)
qed

lemma vcf_not_freebayes: "variants_vcf root s \<noteq> freebayes_variants s'"
proof
  assume eq: "variants_vcf root s = freebayes_variants s'"
  obtain pre where pre: "freebayes_variants s' = pre @ ''m.vcf''"
    using freebayes_variants_suffix by blast
  have "variants_vcf root s = (root @ ''/'' @ s @ ''.variant'') @ ''s.vcf''"
    by (simp add: variants_vcf_def)
  with eq pre have "(root @ ''/'' @ s @ ''.variant'') @ ''s.vcf'' = pre @ ''m.vcf''" by simp
  then have "''s.vcf'' = ''m.vcf''" by (subst (asm) append_eq_append_conv) auto
  then show False by simp
qed

lemma link_ivar_True_links:
  assumes run: "link_ivar root True inp fs = Inr fs'" and v: "v \<in> set (variants inp)"
  shows "\<exists>c. fs' (variants_tsv root (sample_of v)) = Some (File c)
              \<and> (fs v \<noteq> None \<longrightarrow> fs v = Some (File c))"
proof -
  from run obtain fs1 where
    a: "ivar_variants root True (variants inp) fs = Inr fs1" and
    b: "ivar_consensus root True (consensus inp) fs1 = Inr fs'"
    by (auto simp: link_ivar_def split: sum.splits)
  from ivar_variants_links [OF a v] obtain c where
    c: "fs1 (variants_tsv root (sample_of v)) = Some (File c)" and
    d: "fs v \<noteq> None \<longrightarrow> fs v = Some (File c)"
    by blast
  have "fs' (variants_tsv root (sample_of v)) = fs1 (variants_tsv root (sample_of v))"
    using b by (rule ivar_consensus_frame) (simp_all add: last_tsv)
  with c d show ?thesis by auto
qed

lemma fb_variants_downgrade:
  "fb_variants root inp vs fs = Inr fs' \<Longrightarrow> v0 \<in> set vs \<Longrightarrow>
   fs (freebayes_variants (sample_of v0)) = None \<Longrightarrow> fs0 \<subseteq>\<^sub>m fs \<Longrightarrow> v \<in> set (variants inp) \<Longrightarrow>
     \<exists>c. fs' (variants_tsv root (sample_of v)) = Some (File c)
          \<and> (fs0 v \<noteq> None \<longrightarrow> fs0 v = Some (File c))"
proof (induction vs arbitrary: fs)
  case Nil
  then show ?case by simp
next
  case (Cons x xs)
  show ?case
  proof (cases "fs (freebayes_variants (sample_of x)) = None")
    case True
    with Cons.prems(1) have run: "link_ivar root True inp fs = Inr fs'" by simp
    from link_ivar_True_links [OF run Cons.prems(5)] obtain c where
      c: "fs' (variants_tsv root (sample_of v)) = Some (File c)" and
      d: "fs v \<noteq> None \<longrightarrow> fs v = Some (File c)"
      by blast
    have "fs0 v \<noteq> None \<longrightarrow> fs0 v = Some (File c)"
    proof
      assume "fs0 v \<noteq> None"
      then obtain n where n: "fs0 v = Some n" by blast
      with Cons.prems(4) have "fs v = Some n" by (rule_tac map_le_at)
      with d n show "fs0 v = Some (File c)" by simp
    qed
    with c show ?thesis by blast
  next
    case False
    with Cons.prems(2,3) have v0: "v0 \<in> set xs" by auto
    from False Cons.prems(1) obtain fs1 where
      step: "os_link (freebayes_variants (sample_of x)) (variants_vcf root (sample_of x)) fs = Inr fs1
             \<or> fs1 = fs" and
      rest: "fb_variants root inp xs fs1 = Inr fs'"
      by (auto split: sum.splits if_splits)
    have le: "fs \<subseteq>\<^sub>m fs1" using step by (auto dest!: os_link_Inr intro: map_le_new)
    have missing: "fs1 (freebayes_variants (sample_of v0)) = None"
      using step Cons.prems(3) vcf_not_freebayes [of root "sample_of x" "sample_of v0"]
      by (auto dest!: os_link_Inr)
    have "fs0 \<subseteq>\<^sub>m fs1" using Cons.prems(4) le by (rule map_le_trans)
    with Cons.IH [OF rest v0 missing _ Cons.prems(5)] show ?thesis by blast
  qed
qed

text \<open>
  Claim C2. When the FreeBayes variants file of some sample of the input is missing, every
  sample of the input has its iVar link \<open>root/sample.variants.tsv\<close>, a regular file whose
  text is that of the sample's iVar variants file (whenever that file was there at the
  start), the samples whose FreeBayes file exists included. This holds as soon as the
  variants loop of \<^verbatim>\<open>link_freebayes\<close> has run through (lines 36 to 46, with the
  \<^verbatim>\<open>link_ivar\<close> it calls), whatever the consensus loop does afterwards; and it still
  holds at the end whenever the whole of \<^verbatim>\<open>link_freebayes\<close> completes.
\<close>

theorem C2_downgrade_links_every_sample:
  "(fb_variants root inp (variants inp) fs = Inr fs1
      \<and> v0 \<in> set (variants inp) \<and> fs (freebayes_variants (sample_of v0)) = None
      \<and> v \<in> set (variants inp) \<longrightarrow>
      (\<exists>c. fs1 (variants_tsv root (sample_of v)) = Some (File c)
           \<and> (fs v \<noteq> None \<longrightarrow> fs v = Some (File c))))
   \<and> (link_freebayes root inp fs = Inr fs'
      \<and> v0 \<in> set (variants inp) \<and> fs (freebayes_variants (sample_of v0)) = None
      \<and> v \<in> set (variants inp) \<longrightarrow>
      (\<exists>c. fs' (variants_tsv root (sample_of v)) = Some (File c)
           \<and> (fs v \<noteq> None \<longrightarrow> fs v = Some (File c))))"
proof (intro conjI impI)
  assume h: "fb_variants root inp (variants inp) fs = Inr fs1
      \<and> v0 \<in> set (variants inp) \<and> fs (freebayes_variants (sample_of v0)) = None
      \<and> v \<in> set (variants inp)"
  have "fs \<subseteq>\<^sub>m fs" by simp
  with h show "\<exists>c. fs1 (variants_tsv root (sample_of v)) = Some (File c)
           \<and> (fs v \<noteq> None \<longrightarrow> fs v = Some (File c))"
    using fb_variants_downgrade [of root inp "variants inp" fs fs1 v0 fs v] by blast
next
  assume h: "link_freebayes root inp fs = Inr fs'
      \<and> v0 \<in> set (variants inp) \<and> fs (freebayes_variants (sample_of v0)) = None
      \<and> v \<in> set (variants inp)"
  then obtain fs1 where
    a: "fb_variants root inp (variants inp) fs = Inr fs1" and
    b: "fb_consensus root inp (consensus inp) fs1 = Inr fs'"
    by (auto simp: link_freebayes_def split: sum.splits)
  have "fs \<subseteq>\<^sub>m fs" by simp
  with h a obtain c where
    c: "fs1 (variants_tsv root (sample_of v)) = Some (File c)" and
    d: "fs v \<noteq> None \<longrightarrow> fs v = Some (File c)"
    using fb_variants_downgrade [of root inp "variants inp" fs fs1 v0 fs v] by blast
  have "fs' (variants_tsv root (sample_of v)) = Some (File c)"
    using b c by (rule fb_consensus_frame) (simp_all add: last_tsv)
  with d show "\<exists>c. fs' (variants_tsv root (sample_of v)) = Some (File c)
           \<and> (fs v \<noteq> None \<longrightarrow> fs v = Some (File c))"
    by blast
qed

text \<open>
  C2 at concrete runs over the samples \<open>A\<close> and \<open>B\<close>, where \<open>A\<close> has a FreeBayes
  variants file and \<open>B\<close> has none. In the first no sample has a FreeBayes consensus: the
  variants loop runs through and both samples have their iVar link. In the second both
  have a FreeBayes consensus: the whole pass completes and both links are there.
\<close>

theorem C2_downgrade_witness:
  "(\<exists>fs1. fb_variants ''d''
            \<lparr>variants = [''A/v'', ''B/v''], consensus = [''A/c'', ''B/c''], bams = [],
             primertrimmed_bams = []\<rparr>
            [''A/v'', ''B/v'']
            [''d'' \<mapsto> Dir, ''A/v'' \<mapsto> File ''x'', ''B/v'' \<mapsto> File ''y'',
             ''A/c'' \<mapsto> File ''>h\<newline>AC\<newline>'', ''B/c'' \<mapsto> File ''>h\<newline>GT\<newline>'',
             ''A/freebayes/A.variants.norm.vcf'' \<mapsto> File ''p''] = Inr fs1
          \<and> fs1 ''d/A.variants.tsv'' = Some (File ''x'')
          \<and> fs1 ''d/B.variants.tsv'' = Some (File ''y''))
   \<and> (\<exists>fs'. link_freebayes ''d''
            \<lparr>variants = [''A/v'', ''B/v''], consensus = [''A/c'', ''B/c''], bams = [],
             primertrimmed_bams = []\<rparr>
            [''d'' \<mapsto> Dir, ''A/v'' \<mapsto> File ''x'', ''B/v'' \<mapsto> File ''y'',
             ''A/c'' \<mapsto> File ''>h\<newline>AC\<newline>'', ''B/c'' \<mapsto> File ''>h\<newline>GT\<newline>'',
             ''A/freebayes/A.variants.norm.vcf'' \<mapsto> File ''p'',
             ''A/freebayes/A.consensus.fasta'' \<mapsto> File ''>f\<newline>TT\<newline>'',
             ''B/freebayes/B.consensus.fasta'' \<mapsto> File ''>g\<newline>CC\<newline>''] = Inr fs'
          \<and> fs' ''d/A.variants.tsv'' = Some (File ''x'')
          \<and> fs' ''d/B.variants.tsv'' = Some (File ''y''))"
proof -
  let ?inp = "\<lparr>variants = [''A/v'', ''B/v''], consensus = [''A/c'', ''B/c''], bams = [],
               primertrimmed_bams = []\<rparr>"
  let ?fs = "[''d'' \<mapsto> Dir, ''A/v'' \<mapsto> File ''x'', ''B/v'' \<mapsto> File ''y'',
              ''A/c'' \<mapsto> File ''>h\<newline>AC\<newline>'', ''B/c'' \<mapsto> File ''>h\<newline>GT\<newline>'',
              ''A/freebayes/A.variants.norm.vcf'' \<mapsto> File ''p'']"
  let ?fs2 = "[''d'' \<mapsto> Dir, ''A/v'' \<mapsto> File ''x'', ''B/v'' \<mapsto> File ''y'',
              ''A/c'' \<mapsto> File ''>h\<newline>AC\<newline>'', ''B/c'' \<mapsto> File ''>h\<newline>GT\<newline>'',
              ''A/freebayes/A.variants.norm.vcf'' \<mapsto> File ''p'',
              ''A/freebayes/A.consensus.fasta'' \<mapsto> File ''>f\<newline>TT\<newline>'',
              ''B/freebayes/B.consensus.fasta'' \<mapsto> File ''>g\<newline>CC\<newline>'']"
  have tA: "variants_tsv ''d'' (sample_of ''A/v'') = ''d/A.variants.tsv''"
    by (simp add: linker_eval)
  have tB: "variants_tsv ''d'' (sample_of ''B/v'') = ''d/B.variants.tsv''"
    by (simp add: linker_eval)
  have mA: "''A/v'' \<in> set (variants ?inp)" and mB: "''B/v'' \<in> set (variants ?inp)"
    by simp_all
  have miss: "?fs (freebayes_variants (sample_of ''B/v'')) = None"
    by (simp add: linker_eval)
  have miss2: "?fs2 (freebayes_variants (sample_of ''B/v'')) = None"
    by (simp add: linker_eval)
  have "\<exists>fs1. fb_variants ''d'' ?inp (variants ?inp) ?fs = Inr fs1"
    by (simp add: linker_eval)
  then obtain fs1 where run1: "fb_variants ''d'' ?inp (variants ?inp) ?fs = Inr fs1" by blast
  have "\<exists>fs'. link_freebayes ''d'' ?inp ?fs2 = Inr fs'"
    by (simp add: linker_eval)
  then obtain fs' where run2: "link_freebayes ''d'' ?inp ?fs2 = Inr fs'" by blast
  note pass = C2_downgrade_links_every_sample [of "''d''" ?inp ?fs fs1 "''B/v''" _ fs', THEN conjunct1, THEN mp]
  note whole = C2_downgrade_links_every_sample [of "''d''" ?inp ?fs2 fs1 "''B/v''" _ fs', THEN conjunct2, THEN mp]
  have a: "fs1 ''d/A.variants.tsv'' = Some (File ''x'')"
    using pass [of "''A/v''"] run1 mA mB miss tA by auto
  have b: "fs1 ''d/B.variants.tsv'' = Some (File ''y'')"
    using pass [of "''B/v''"] run1 mB miss tB by auto
  have c: "fs' ''d/A.variants.tsv'' = Some (File ''x'')"
    using whole [of "''A/v''"] run2 mA mB miss2 tA by auto
  have d: "fs' ''d/B.variants.tsv'' = Some (File ''y'')"
    using whole [of "''B/v''"] run2 mB miss2 tB by auto
  from run1 a b have first: "\<exists>fs1. fb_variants ''d'' ?inp [''A/v'', ''B/v''] ?fs = Inr fs1
          \<and> fs1 ''d/A.variants.tsv'' = Some (File ''x'')
          \<and> fs1 ''d/B.variants.tsv'' = Some (File ''y'')"
    by auto
  from run2 c d have second: "\<exists>fs'. link_freebayes ''d'' ?inp ?fs2 = Inr fs'
          \<and> fs' ''d/A.variants.tsv'' = Some (File ''x'')
          \<and> fs' ''d/B.variants.tsv'' = Some (File ''y'')"
    by auto
  from first second show ?thesis by (rule conjI)
qed

section \<open>The BAM links of the configuration setup\<close>

lemma parent_error_mono:
  "fs \<subseteq>\<^sub>m fs' \<Longrightarrow> parent_error fs p = None \<Longrightarrow> parent_error fs' p = None"
  by (auto simp: parent_error_def split: if_splits option.splits node.splits dest: map_le_at)

lemma parent_error_not_NameError: "parent_error fs p \<noteq> Some NameError"
  by (auto simp: parent_error_def split: option.splits node.splits)

lemma os_link_not_NameError: "os_link s d fs \<noteq> Inl NameError"
  using parent_error_not_NameError [of fs d]
  by (auto simp: os_link_def split: option.splits node.splits)

lemma os_link_succeeds:
  "fs s = Some (File c) \<Longrightarrow> parent_error fs d = None \<Longrightarrow> fs d = None \<Longrightarrow>
     os_link s d fs = Inr (fs(d \<mapsto> File c))"
  by (simp add: os_link_def)

lemma bam_link_inj: "bam_link root suffix b = bam_link root suffix b' \<Longrightarrow> sample_of b = sample_of b'"
  by (simp add: bam_link_def)

lemma link_bams_Inr:
  "link_bams root suffix paths fs = Inr fs' \<Longrightarrow>
     fs \<subseteq>\<^sub>m fs' \<and> distinct (map sample_of paths) \<and> (\<forall>b \<in> set paths. fs (bam_link root suffix b) = None)"
proof (induction paths arbitrary: fs)
  case Nil
  then show ?case by simp
next
  case (Cons b paths)
  from Cons.prems obtain fs1 where
    absent: "fs (bam_link root suffix b) = None" and
    l: "os_link b (bam_link root suffix b) fs = Inr fs1" and
    rest: "link_bams root suffix paths fs1 = Inr fs'"
    by (auto split: if_splits sum.splits)
  from os_link_Inr [OF l] obtain c where
    fs1: "fs1 = fs(bam_link root suffix b \<mapsto> File c)" by blast
  have le: "fs \<subseteq>\<^sub>m fs1" using absent fs1 by (simp add: map_le_new)
  from Cons.IH [OF rest] have
    le': "fs1 \<subseteq>\<^sub>m fs'" and
    d: "distinct (map sample_of paths)" and
    n: "\<forall>b' \<in> set paths. fs1 (bam_link root suffix b') = None"
    by auto
  have other: "sample_of b' \<noteq> sample_of b \<and> fs (bam_link root suffix b') = None"
    if "b' \<in> set paths" for b'
  proof -
    from n that have x: "fs1 (bam_link root suffix b') = None" by blast
    then have "bam_link root suffix b' \<noteq> bam_link root suffix b" using fs1 by auto
    then have "sample_of b' \<noteq> sample_of b" by (auto simp: bam_link_def)
    moreover have "fs (bam_link root suffix b') = None"
      using x fs1 by (auto split: if_splits)
    ultimately show ?thesis by blast
  qed
  have notin: "sample_of b \<notin> sample_of ` set paths" using other by force
  have "fs \<subseteq>\<^sub>m fs'" using le le' by (rule map_le_trans)
  moreover have "distinct (map sample_of (b # paths))" using d notin by simp
  moreover have "\<forall>b' \<in> set (b # paths). fs (bam_link root suffix b') = None"
    using absent other by simp
  ultimately show ?case by blast
qed

lemma link_bams_error_is_NameError:
  "link_bams root suffix paths fs = Inl e \<Longrightarrow>
   \<forall>b \<in> set paths. \<exists>c. fs b = Some (File c) \<Longrightarrow>
   \<forall>b \<in> set paths. parent_error fs (bam_link root suffix b) = None \<Longrightarrow> e = NameError"
proof (induction paths arbitrary: fs)
  case Nil
  then show ?case by simp
next
  case (Cons b paths)
  show ?case
  proof (cases "fs (bam_link root suffix b) = None")
    case False
    with Cons.prems(1) show ?thesis by simp
  next
    case True
    from Cons.prems(2) obtain c where c: "fs b = Some (File c)" by auto
    from Cons.prems(3) have p: "parent_error fs (bam_link root suffix b) = None" by simp
    let ?fs1 = "fs(bam_link root suffix b \<mapsto> File c)"
    have l: "os_link b (bam_link root suffix b) fs = Inr ?fs1"
      using c p True by (rule os_link_succeeds)
    with True Cons.prems(1) have rest: "link_bams root suffix paths ?fs1 = Inl e" by simp
    have le: "fs \<subseteq>\<^sub>m ?fs1" using True by (rule map_le_new)
    have a: "\<forall>b' \<in> set paths. \<exists>c. ?fs1 b' = Some (File c)"
      using Cons.prems(2) le by (auto dest: map_le_at)
    have b: "\<forall>b' \<in> set paths. parent_error ?fs1 (bam_link root suffix b') = None"
      using Cons.prems(3) parent_error_mono [OF le] by simp
    from Cons.IH [OF rest a b] show ?thesis .
  qed
qed

lemma link_bams_fresh:
  "\<forall>b \<in> set paths. fs (bam_link root suffix b) = None \<Longrightarrow> distinct (map sample_of paths) \<Longrightarrow>
     link_bams root suffix paths fs \<noteq> Inl NameError"
proof (induction paths arbitrary: fs)
  case Nil
  then show ?case by simp
next
  case (Cons b paths)
  from Cons.prems(1) have absent: "fs (bam_link root suffix b) = None" by simp
  show ?case
  proof (cases "os_link b (bam_link root suffix b) fs")
    case (Inl e)
    with absent os_link_not_NameError [of b "bam_link root suffix b" fs] show ?thesis by auto
  next
    case (Inr fs1)
    from os_link_Inr [OF Inr] obtain c where
      fs1: "fs1 = fs(bam_link root suffix b \<mapsto> File c)" by blast
    have "\<forall>b' \<in> set paths. fs1 (bam_link root suffix b') = None"
    proof
      fix b' assume b': "b' \<in> set paths"
      have "sample_of b \<notin> set (map sample_of paths)" using Cons.prems(2) by simp
      moreover have "sample_of b' \<in> set (map sample_of paths)" using b' by simp
      ultimately have "sample_of b' \<noteq> sample_of b" by metis
      then have "bam_link root suffix b' \<noteq> bam_link root suffix b" by (auto simp: bam_link_def)
      with Cons.prems(1) b' fs1 show "fs1 (bam_link root suffix b') = None" by simp
    qed
    moreover from Cons.prems(2) have "distinct (map sample_of paths)" by simp
    ultimately have "link_bams root suffix paths fs1 \<noteq> Inl NameError" by (rule Cons.IH)
    with absent Inr show ?thesis by simp
  qed
qed

lemma startswith_append: "startswith (p @ r) p"
  by (simp add: startswith_iff)

lemma bam_link_beneath: "beneath root (bam_link root suffix b)"
proof (cases "root \<noteq> [] \<and> last root = CHR ''/''")
  case True
  then show ?thesis
    unfolding beneath_def bam_link_def using startswith_append [of root] by simp
next
  case False
  have "startswith ((root @ ''/'') @ sample_of b @ suffix) (root @ ''/'')"
    by (rule startswith_append)
  with False show ?thesis
    unfolding beneath_def bam_link_def by auto
qed

lemma bam_link_not_root: "bam_link root suffix b \<noteq> root"
  by (simp add: bam_link_def)

lemma recreate_clears:
  assumes "recreate root fs = Inr fs2"
    and "fs root = None \<longrightarrow> (\<forall>p. beneath root p \<longrightarrow> fs p = None)"
    and "beneath root p" and "p \<noteq> root"
  shows "fs2 p = None"
proof (cases "fs root = None")
  case True
  with assms(1) have "os_mkdir root fs = Inr fs2" by (simp add: recreate_def)
  then have "fs2 = fs(root \<mapsto> Dir)"
    by (auto simp: os_mkdir_def split: option.splits if_splits)
  with True assms(2,3,4) show ?thesis by simp
next
  case False
  with assms(1) obtain fs1 where
    r: "shutil_rmtree root fs = Inr fs1" and m: "os_mkdir root fs1 = Inr fs2"
    by (auto simp: recreate_def split: sum.splits)
  from r have "fs1 = (\<lambda>p. if p = root \<or> beneath root p then None else fs p)"
    by (auto simp: shutil_rmtree_def split: option.splits node.splits)
  moreover from m have "fs2 = fs1(root \<mapsto> Dir)"
    by (auto simp: os_mkdir_def split: option.splits if_splits)
  ultimately show ?thesis using assms(3,4) by simp
qed

lemma link_bams_append:
  "link_bams root suffix (xs @ ys) fs =
     (case link_bams root suffix xs fs of
        Inl e \<Rightarrow> Inl e
      | Inr fs1 \<Rightarrow> link_bams root suffix ys fs1)"
  by (induction xs arbitrary: fs) (auto split: sum.splits)

lemma link_bams_frame:
  "link_bams root suffix paths fs = Inr fs' \<Longrightarrow>
   \<forall>b \<in> set paths. p \<noteq> bam_link root suffix b \<Longrightarrow> fs' p = fs p"
proof (induction paths arbitrary: fs)
  case Nil
  then show ?case by simp
next
  case (Cons b paths)
  from Cons.prems(1) obtain fs1 where
    l: "os_link b (bam_link root suffix b) fs = Inr fs1" and
    rest: "link_bams root suffix paths fs1 = Inr fs'"
    by (auto split: if_splits sum.splits)
  from os_link_Inr [OF l] Cons.prems(2) have "fs1 p = fs p" by auto
  moreover from Cons.prems(2) have "\<forall>b \<in> set paths. p \<noteq> bam_link root suffix b" by simp
  with rest have "fs' p = fs1 p" by (rule Cons.IH)
  ultimately show ?case by simp
qed

lemma bam_links_differ:
  "sample_of b1 \<noteq> sample_of b2 @ ''.mapped.primertrimmed.sorted'' \<Longrightarrow>
     bam_link root ''.mapped.primertrimmed.sorted.bam'' b2 \<noteq> bam_link root ''.bam'' b1"
proof
  assume d: "sample_of b1 \<noteq> sample_of b2 @ ''.mapped.primertrimmed.sorted''"
  assume "bam_link root ''.mapped.primertrimmed.sorted.bam'' b2 = bam_link root ''.bam'' b1"
  then have "(sample_of b2 @ ''.mapped.primertrimmed.sorted'') @ ''.bam'' = sample_of b1 @ ''.bam''"
    by (simp add: bam_link_def)
  then have "sample_of b2 @ ''.mapped.primertrimmed.sorted'' = sample_of b1"
    by (simp only: same_append_eq append_same_eq)
  with d show False by simp
qed

text \<open>
  Claim C10. The guard of both BAM loops names \<open>replace\<close>, which nothing binds. So:
  whenever the loop reaches a path whose link already exists, it raises
  \<^verbatim>\<open>NameError\<close>; in particular two inputs with the same first path segment, both
  regular files in an existing data directory, end the loop with \<^verbatim>\<open>NameError\<close>. The
  steps get by because the data directory was just made anew: directly after the
  recreation (nothing lies below a directory that does not exist) the first loop raises no
  \<^verbatim>\<open>NameError\<close> over inputs with distinct samples, and neither does the second
  after it, as long as no link of the first loop is one of its own.
\<close>

theorem C10_bam_guard_raises_NameError:
  "(link_bams root suffix before fs = Inr fs1 \<and> fs1 (bam_link root suffix bam) \<noteq> None \<longrightarrow>
      link_bams root suffix (before @ bam # rest) fs = Inl NameError)
   \<and> (\<not> distinct (map sample_of paths)
      \<and> (\<forall>b \<in> set paths. \<exists>c. fs b = Some (File c))
      \<and> (\<forall>b \<in> set paths. parent_error fs (bam_link root suffix b) = None) \<longrightarrow>
      link_bams root suffix paths fs = Inl NameError)
   \<and> (recreate root fs = Inr fs2
      \<and> (fs root = None \<longrightarrow> (\<forall>p. beneath root p \<longrightarrow> fs p = None))
      \<and> distinct (map sample_of paths) \<longrightarrow>
      link_bams root ''.bam'' paths fs2 \<noteq> Inl NameError)
   \<and> (recreate root fs = Inr fs2
      \<and> (fs root = None \<longrightarrow> (\<forall>p. beneath root p \<longrightarrow> fs p = None))
      \<and> link_bams root ''.bam'' paths fs2 = Inr fs3
      \<and> distinct (map sample_of trimmed)
      \<and> (\<forall>b1 \<in> set paths. \<forall>b2 \<in> set trimmed.
            sample_of b1 \<noteq> sample_of b2 @ ''.mapped.primertrimmed.sorted'') \<longrightarrow>
      link_bams root ''.mapped.primertrimmed.sorted.bam'' trimmed fs3 \<noteq> Inl NameError)"
proof (intro conjI impI)
  assume "link_bams root suffix before fs = Inr fs1 \<and> fs1 (bam_link root suffix bam) \<noteq> None"
  then show "link_bams root suffix (before @ bam # rest) fs = Inl NameError"
    by (auto simp: link_bams_append)
next
  assume h: "\<not> distinct (map sample_of paths)
      \<and> (\<forall>b \<in> set paths. \<exists>c. fs b = Some (File c))
      \<and> (\<forall>b \<in> set paths. parent_error fs (bam_link root suffix b) = None)"
  show "link_bams root suffix paths fs = Inl NameError"
  proof (cases "link_bams root suffix paths fs")
    case (Inl e)
    with h link_bams_error_is_NameError [of root suffix paths fs e] show ?thesis by blast
  next
    case (Inr fs')
    from link_bams_Inr [OF Inr] h show ?thesis by blast
  qed
next
  assume h: "recreate root fs = Inr fs2
      \<and> (fs root = None \<longrightarrow> (\<forall>p. beneath root p \<longrightarrow> fs p = None))
      \<and> distinct (map sample_of paths)"
  from h have r: "recreate root fs = Inr fs2"
    and t: "fs root = None \<longrightarrow> (\<forall>p. beneath root p \<longrightarrow> fs p = None)"
    by blast+
  have "fs2 (bam_link root ''.bam'' b) = None" for b
    using r t bam_link_beneath bam_link_not_root by (rule recreate_clears)
  then have "\<forall>b \<in> set paths. fs2 (bam_link root ''.bam'' b) = None" by blast
  with h show "link_bams root ''.bam'' paths fs2 \<noteq> Inl NameError"
    using link_bams_fresh by blast
next
  let ?suffix = "''.mapped.primertrimmed.sorted.bam''"
  assume h: "recreate root fs = Inr fs2
      \<and> (fs root = None \<longrightarrow> (\<forall>p. beneath root p \<longrightarrow> fs p = None))
      \<and> link_bams root ''.bam'' paths fs2 = Inr fs3
      \<and> distinct (map sample_of trimmed)
      \<and> (\<forall>b1 \<in> set paths. \<forall>b2 \<in> set trimmed.
            sample_of b1 \<noteq> sample_of b2 @ ''.mapped.primertrimmed.sorted'')"
  from h have r: "recreate root fs = Inr fs2"
    and t: "fs root = None \<longrightarrow> (\<forall>p. beneath root p \<longrightarrow> fs p = None)"
    and first: "link_bams root ''.bam'' paths fs2 = Inr fs3"
    and apart: "\<forall>b1 \<in> set paths. \<forall>b2 \<in> set trimmed.
            sample_of b1 \<noteq> sample_of b2 @ ''.mapped.primertrimmed.sorted''"
    by blast+
  have "fs3 (bam_link root ?suffix b2) = None" if b2: "b2 \<in> set trimmed" for b2
  proof -
    have "\<forall>b \<in> set paths. bam_link root ?suffix b2 \<noteq> bam_link root ''.bam'' b"
      using apart b2 bam_links_differ by blast
    with first have "fs3 (bam_link root ?suffix b2) = fs2 (bam_link root ?suffix b2)"
      by (rule link_bams_frame)
    moreover have "fs2 (bam_link root ?suffix b2) = None"
      using r t bam_link_beneath bam_link_not_root by (rule recreate_clears)
    ultimately show ?thesis by simp
  qed
  then have "\<forall>b \<in> set trimmed. fs3 (bam_link root ?suffix b) = None" by blast
  with h show "link_bams root ?suffix trimmed fs3 \<noteq> Inl NameError"
    using link_bams_fresh by blast
qed


text \<open>Evaluating \<^verbatim>\<open>set_up\<close> on concrete inputs.\<close>

lemmas setup_eval =
  set_up_def data_root_of_def config_path_def abspath_def normpath_def initial_slashes_def
  norm_step_def basename_def join_step_def recreate_def shutil_rmtree_def os_mkdir_def
  beneath_def read_text_def write_text_def bam_link_def resolve_pangolin_def
  normalize_version_def py_strip_def py_lower_def py_lower_char_def negative_controls_def
  os_link_def parent_error_def dirname_def sample_of_def readlines_def

text \<open>
  C10 at concrete inputs: a stale link \<open>d/A.bam\<close> and two inputs of sample \<open>A\<close> each
  raise \<^verbatim>\<open>NameError\<close>; after the recreation the stale link is gone and both loops run;
  and \<^verbatim>\<open>set_up\<close> itself ends with \<^verbatim>\<open>NameError\<close> on two alignment files of one
  sample.
\<close>

theorem C10_witness:
  "link_bams ''d'' ''.bam'' [''A/a.bam'']
     [''d'' \<mapsto> Dir, ''A/a.bam'' \<mapsto> File ''b'', ''d/A.bam'' \<mapsto> File ''old''] = Inl NameError
   \<and> link_bams ''d'' ''.bam'' [''A/x.bam'', ''A/y.bam'']
     [''d'' \<mapsto> Dir, ''A/x.bam'' \<mapsto> File ''1'', ''A/y.bam'' \<mapsto> File ''2''] = Inl NameError
   \<and> (\<exists>fs2 fs3.
         recreate ''d''
           [''d'' \<mapsto> Dir, ''A/a.bam'' \<mapsto> File ''b'', ''A/t.bam'' \<mapsto> File ''t'',
            ''d/A.bam'' \<mapsto> File ''old''] = Inr fs2
         \<and> link_bams ''d'' ''.bam'' [''A/a.bam''] fs2 = Inr fs3
         \<and> link_bams ''d'' ''.bam'' [''A/a.bam''] fs2 \<noteq> Inl NameError
         \<and> link_bams ''d'' ''.mapped.primertrimmed.sorted.bam'' [''A/t.bam''] fs3 \<noteq> Inl NameError)
   \<and> set_up
        \<lparr>getcwd = ''/w'', urlopen = (\<lambda>u. Inl URLError), set_order = (\<lambda>S. [])\<rparr>
        \<lparr>exec_dir = ''/e'', result_dir = ''r'', pangolin = ''4'', negative_control_prefix = [],
         sample_csv_filename = ''/s.csv'', amplicon_bed = ''a'', viral_reference_genome = ''g'',
         primer_bed = ''p'', phylo_include_seqs = ''x'', freebayes_run = False\<rparr>
        \<lparr>variants = [], consensus = [], bams = [''A/x.bam'', ''A/y.bam''],
         primertrimmed_bams = []\<rparr>
        [''/e/ncov-tools'' \<mapsto> Dir, ''/s.csv'' \<mapsto> File ''h\<newline>'',
         ''A/x.bam'' \<mapsto> File ''1'', ''A/y.bam'' \<mapsto> File ''2'']
       = Inl NameError"
proof -
  let ?stale = "[''d'' \<mapsto> Dir, ''A/a.bam'' \<mapsto> File ''b'', ''d/A.bam'' \<mapsto> File ''old'']"
  let ?twice = "[''d'' \<mapsto> Dir, ''A/x.bam'' \<mapsto> File ''1'', ''A/y.bam'' \<mapsto> File ''2'']"
  let ?old = "[''d'' \<mapsto> Dir, ''A/a.bam'' \<mapsto> File ''b'', ''A/t.bam'' \<mapsto> File ''t'',
               ''d/A.bam'' \<mapsto> File ''old'']"
  let ?fs2 = "(\<lambda>p. if p = ''d'' \<or> beneath ''d'' p then None else ?old p)(''d'' \<mapsto> Dir)"
  let ?fs3 = "?fs2(''d/A.bam'' \<mapsto> File ''b'')"
  have a1: "link_bams ''d'' ''.bam'' [] ?stale = Inr ?stale
            \<and> ?stale (bam_link ''d'' ''.bam'' ''A/a.bam'') \<noteq> None"
    by (simp add: bam_link_def sample_of_def)
  have a: "link_bams ''d'' ''.bam'' ([] @ ''A/a.bam'' # []) ?stale = Inl NameError"
    using C10_bam_guard_raises_NameError [of "''d''" "''.bam''" "[]" ?stale ?stale "''A/a.bam''" "[]",
        THEN conjunct1] a1
    by (rule mp)
  have b1: "\<not> distinct (map sample_of [''A/x.bam'', ''A/y.bam''])
      \<and> (\<forall>b \<in> set [''A/x.bam'', ''A/y.bam'']. \<exists>c. ?twice b = Some (File c))
      \<and> (\<forall>b \<in> set [''A/x.bam'', ''A/y.bam''].
            parent_error ?twice (bam_link ''d'' ''.bam'' b) = None)"
    by (simp add: bam_link_def sample_of_def parent_error_def dirname_def)
  have b: "link_bams ''d'' ''.bam'' [''A/x.bam'', ''A/y.bam''] ?twice = Inl NameError"
    using C10_bam_guard_raises_NameError [where root = "''d''" and suffix = "''.bam''"
        and paths = "[''A/x.bam'', ''A/y.bam'']" and fs = ?twice,
        THEN conjunct2, THEN conjunct1] b1
    by (rule mp)
  have r: "recreate ''d'' ?old = Inr ?fs2"
    by (simp add: recreate_def shutil_rmtree_def os_mkdir_def parent_error_def dirname_def)
  have l: "link_bams ''d'' ''.bam'' [''A/a.bam''] ?fs2 = Inr ?fs3"
    by (simp add: bam_link_def sample_of_def os_link_def parent_error_def dirname_def beneath_def)
  have c1: "recreate ''d'' ?old = Inr ?fs2
      \<and> (?old ''d'' = None \<longrightarrow> (\<forall>p. beneath ''d'' p \<longrightarrow> ?old p = None))
      \<and> distinct (map sample_of [''A/a.bam''])"
    using r by simp
  have c: "link_bams ''d'' ''.bam'' [''A/a.bam''] ?fs2 \<noteq> Inl NameError"
    using C10_bam_guard_raises_NameError [where root = "''d''" and fs = ?old
        and ?fs2.0 = ?fs2 and paths = "[''A/a.bam'']",
        THEN conjunct2, THEN conjunct2, THEN conjunct1] c1
    by (rule mp)
  have d1: "recreate ''d'' ?old = Inr ?fs2
      \<and> (?old ''d'' = None \<longrightarrow> (\<forall>p. beneath ''d'' p \<longrightarrow> ?old p = None))
      \<and> link_bams ''d'' ''.bam'' [''A/a.bam''] ?fs2 = Inr ?fs3
      \<and> distinct (map sample_of [''A/t.bam''])
      \<and> (\<forall>b1 \<in> set [''A/a.bam'']. \<forall>b2 \<in> set [''A/t.bam''].
            sample_of b1 \<noteq> sample_of b2 @ ''.mapped.primertrimmed.sorted'')"
    using r l by (simp add: sample_of_def)
  have d: "link_bams ''d'' ''.mapped.primertrimmed.sorted.bam'' [''A/t.bam''] ?fs3 \<noteq> Inl NameError"
    using C10_bam_guard_raises_NameError [where root = "''d''" and fs = ?old
        and ?fs2.0 = ?fs2 and ?fs3.0 = ?fs3 and paths = "[''A/a.bam'']"
        and trimmed = "[''A/t.bam'']",
        THEN conjunct2, THEN conjunct2, THEN conjunct2] d1
    by (rule mp)
  have e: "set_up
        \<lparr>getcwd = ''/w'', urlopen = (\<lambda>u. Inl URLError), set_order = (\<lambda>S. [])\<rparr>
        \<lparr>exec_dir = ''/e'', result_dir = ''r'', pangolin = ''4'', negative_control_prefix = [],
         sample_csv_filename = ''/s.csv'', amplicon_bed = ''a'', viral_reference_genome = ''g'',
         primer_bed = ''p'', phylo_include_seqs = ''x'', freebayes_run = False\<rparr>
        \<lparr>variants = [], consensus = [], bams = [''A/x.bam'', ''A/y.bam''],
         primertrimmed_bams = []\<rparr>
        [''/e/ncov-tools'' \<mapsto> Dir, ''/s.csv'' \<mapsto> File ''h\<newline>'',
         ''A/x.bam'' \<mapsto> File ''1'', ''A/y.bam'' \<mapsto> File ''2'']
       = Inl NameError"
    by (simp add: setup_eval)
  from r l c d have third: "\<exists>fs2 fs3.
         recreate ''d'' ?old = Inr fs2
         \<and> link_bams ''d'' ''.bam'' [''A/a.bam''] fs2 = Inr fs3
         \<and> link_bams ''d'' ''.bam'' [''A/a.bam''] fs2 \<noteq> Inl NameError
         \<and> link_bams ''d'' ''.mapped.primertrimmed.sorted.bam'' [''A/t.bam''] fs3 \<noteq> Inl NameError"
    by blast
  from a have a': "link_bams ''d'' ''.bam'' [''A/a.bam''] ?stale = Inl NameError"
    by (simp only: append_Nil)
  from a' b third e show ?thesis by (intro conjI)
qed

section \<open>Relocation never raises\<close>











section \<open>The configuration file that is written\<close>












end
